theory Spec2Isabelle
  imports Complex_Main "HOL-Library.Word"
begin

unbundle bit_operations_syntax

section \<open>Bytes and C strings\<close>

text \<open>
  An \<^verbatim>\<open>unsigned char\<close> is an 8-bit word.  A NUL-terminated C string is the list
  of its bytes before the terminator; a pointer into such a string is represented by
  the C string that starts at it, so \<^verbatim>\<open>*p\<close> is the head of the list (or 0 at
  the terminator) and \<^verbatim>\<open>p + 1\<close> is its tail.
\<close>

type_synonym byte = "8 word"

definition bytes :: "string \<Rightarrow> byte list" where
  "bytes s = map of_char s"

text \<open>\<^verbatim>\<open>*p\<close>: the byte under the pointer, 0 when it stands on the terminator.\<close>

fun deref :: "byte list \<Rightarrow> byte" where
  "deref [] = 0"
| "deref (c # cs) = c"

text \<open>\<^verbatim>\<open>p[1]\<close>, read only where \<^verbatim>\<open>*p\<close> is not the terminator.\<close>

definition deref1 :: "byte list \<Rightarrow> byte" where
  "deref1 p = deref (tl p)"

section \<open>The minifier\<close>

text \<open>
  \<^verbatim>\<open>cJSON_Minify\<close> walks the text with the read cursor \<^verbatim>\<open>json\<close> and stores the
  bytes it keeps through the write cursor \<^verbatim>\<open>into\<close>, which never overtakes the read
  cursor.  The model carries the C string at \<^verbatim>\<open>json\<close> and the list of bytes stored
  so far.  A step that moves \<^verbatim>\<open>json\<close> beyond the terminator leaves the string; the
  model stops there with \<open>None\<close>.
\<close>

text \<open>\<^verbatim>\<open>while (*json && (*json != '\n')) json++;\<close>\<close>

fun skip_line_comment :: "byte list \<Rightarrow> byte list" where
  "skip_line_comment [] = []"
| "skip_line_comment (c # cs) = (if c \<noteq> 0x0A then skip_line_comment cs else c # cs)"

text \<open>\<^verbatim>\<open>while (*json && !((*json == '*') && (json[1] == '/'))) json++;\<close>\<close>

fun skip_block_comment :: "byte list \<Rightarrow> byte list" where
  "skip_block_comment [] = []"
| "skip_block_comment (c # cs) =
     (if \<not> (c = 0x2A \<and> deref cs = 0x2F) then skip_block_comment cs else c # cs)"

text \<open>\<^verbatim>\<open>json += n\<close>: defined as long as the cursor stays on the string or its terminator.\<close>

definition advance :: "nat \<Rightarrow> byte list \<Rightarrow> byte list option" where
  "advance n p = (if n \<le> length p then Some (drop n p) else None)"

text \<open>
  The body of a string literal:
  \<^verbatim>\<open>while (*json && (*json != '\"')) { if (*json == '\\') *into++ = *json++; *into++ = *json++; }\<close>
  After a backslash the next byte is copied unseen; when that byte is the terminator the
  read cursor steps beyond it.  The result is the cursor and the bytes stored.
\<close>

fun copy_string_body :: "byte list \<Rightarrow> byte list \<Rightarrow> (byte list \<times> byte list) option" where
  "copy_string_body [] out = Some ([], out)"
| "copy_string_body (c # cs) out =
     (if c = 0x22 then Some (c # cs, out)
      else if c = 0x5C then
        (case cs of
           [] \<Rightarrow> None
         | d # ds \<Rightarrow> copy_string_body ds (out @ [c, d]))
      else copy_string_body cs (out @ [c]))"

text \<open>
  The closing \<^verbatim>\<open>*into++ = *json++;\<close> of the string branch: it copies whatever byte
  ended the body; on the terminator the read cursor steps beyond it.
\<close>

definition copy_string :: "byte list \<Rightarrow> byte list \<Rightarrow> (byte list \<times> byte list) option" where
  "copy_string json out =
     (case json of
        [] \<Rightarrow> None
      | q # cs \<Rightarrow>
          (case copy_string_body cs (out @ [q]) of
             None \<Rightarrow> None
           | Some ([], out') \<Rightarrow> None
           | Some (e # rest, out') \<Rightarrow> Some (rest, out' @ [e])))"

lemma skip_line_comment_length: "length (skip_line_comment p) \<le> length p"
  by (induction p) auto

lemma skip_block_comment_length: "length (skip_block_comment p) \<le> length p"
  by (induction p) auto

lemma copy_string_body_length:
  "copy_string_body p out = Some (p', out') \<Longrightarrow> length p' \<le> length p"
  by (induction p out rule: copy_string_body.induct) (auto split: if_splits list.splits)

lemma copy_string_length:
  "copy_string p out = Some (p', out') \<Longrightarrow> length p' < length p"
  by (auto simp: copy_string_def split: list.splits option.splits prod.splits
      dest!: copy_string_body_length)

lemma advance_length: "advance n p = Some p' \<Longrightarrow> length p' = length p - n"
  by (auto simp: advance_def split: if_splits)

text \<open>
  The main loop \<^verbatim>\<open>while (*json) { ... }\<close> with its branches in the order of the
  source.  The result is the list of bytes stored before the final
  \<^verbatim>\<open>*into = '\0'\<close>, that is, the C string the buffer holds afterwards.
\<close>

function minify_loop :: "byte list \<Rightarrow> byte list \<Rightarrow> byte list option" where
  "minify_loop [] out = Some out"
| "minify_loop (c # cs) out =
     (if c = 0x20 then minify_loop cs out
      else if c = 0x09 then minify_loop cs out
      else if c = 0x0D then minify_loop cs out
      else if c = 0x0A then minify_loop cs out
      else if c = 0x2F \<and> deref cs = 0x2F then minify_loop (skip_line_comment (c # cs)) out
      else if c = 0x2F \<and> deref cs = 0x2A then
        (case advance 2 (skip_block_comment (c # cs)) of
           None \<Rightarrow> None
         | Some json \<Rightarrow> minify_loop json out)
      else if c = 0x22 then
        (case copy_string (c # cs) out of
           None \<Rightarrow> None
         | Some (json, out') \<Rightarrow> minify_loop json out')
      else minify_loop cs (out @ [c]))"
  by pat_completeness auto
termination
proof (relation "measure (\<lambda>(p, out). length p)", goal_cases)
  case 1
  show ?case by simp
next
  case (6 c cs out)
  then show ?case
    using skip_line_comment_length [of cs] by simp
next
  case (7 c cs out json)
  then show ?case
    using skip_block_comment_length [of cs] by (auto dest!: advance_length)
next
  case (8 c cs out x json out')
  then show ?case
    by (auto dest!: copy_string_length)
qed simp_all

definition cJSON_Minify :: "byte list \<Rightarrow> byte list option" where
  "cJSON_Minify json = minify_loop json []"

subsection \<open>The bytes already stored do not influence the scan\<close>

lemma copy_string_body_acc:
  "copy_string_body p out = map_option (\<lambda>(r, l). (r, out @ l)) (copy_string_body p [])"
proof (induction "length p" arbitrary: p out rule: less_induct)
  case less
  show ?case
  proof (cases p)
    case Nil
    then show ?thesis by simp
  next
    case (Cons c cs)
    show ?thesis
    proof (cases "c = 0x22")
      case True
      with Cons show ?thesis by simp
    next
      case nq: False
      show ?thesis
      proof (cases "c = 0x5C")
        case True
        show ?thesis
        proof (cases cs)
          case Nil
          with Cons nq True show ?thesis by simp
        next
          case (Cons d ds)
          have l: "length ds < length p" using \<open>p = c # cs\<close> Cons by simp
          show ?thesis
            using less [OF l, of "out @ [c, d]"] less [OF l, of "[c, d]"] \<open>p = c # cs\<close> Cons nq True
            by (simp add: option.map_comp comp_def split_def)
        qed
      next
        case False
        have l: "length cs < length p" using Cons by simp
        show ?thesis
          using less [OF l, of "out @ [c]"] less [OF l, of "[c]"] Cons nq False
          by (simp add: option.map_comp comp_def split_def)
      qed
    qed
  qed
qed

lemma copy_string_acc:
  "copy_string p out = map_option (\<lambda>(r, l). (r, out @ l)) (copy_string p [])"
proof (cases p)
  case Nil
  then show ?thesis by (simp add: copy_string_def)
next
  case (Cons q cs)
  show ?thesis
    using copy_string_body_acc [of cs "out @ [q]"] copy_string_body_acc [of cs "[q]"] Cons
    by (auto simp: copy_string_def split: option.splits list.splits)
qed

lemma minify_loop_acc:
  "minify_loop p out = map_option ((@) out) (minify_loop p [])"
proof (induction "length p" arbitrary: p out rule: less_induct)
  case less
  show ?case
  proof (cases p)
    case Nil
    then show ?thesis by simp
  next
    case (Cons c cs)
    have l: "length cs < length p" using Cons by simp
    consider (ws) "c = 0x20 \<or> c = 0x09 \<or> c = 0x0D \<or> c = 0x0A"
      | (line) "c = 0x2F" "deref cs = 0x2F"
      | (block) "c = 0x2F" "deref cs = 0x2A"
      | (str) "c = 0x22"
      | (other) "c \<noteq> 0x20" "c \<noteq> 0x09" "c \<noteq> 0x0D" "c \<noteq> 0x0A" "c \<noteq> 0x22"
          "\<not> (c = 0x2F \<and> deref cs = 0x2F)" "\<not> (c = 0x2F \<and> deref cs = 0x2A)"
      by blast
    then show ?thesis
    proof cases
      case ws
      then show ?thesis using Cons less [OF l, of out] by auto
    next
      case line
      have "length (skip_line_comment cs) < length p"
        using skip_line_comment_length [of cs] Cons by simp
      from less [OF this, of out] show ?thesis using Cons line by simp
    next
      case block
      show ?thesis
      proof (cases "advance 2 (skip_block_comment (c # cs))")
        case None
        then show ?thesis using Cons block by simp
      next
        case (Some json)
        have "length json < length p"
          using Some skip_block_comment_length [of cs] Cons block
          by (auto dest!: advance_length)
        from less [OF this, of out] show ?thesis using Cons block Some by simp
      qed
    next
      case str
      show ?thesis
      proof (cases "copy_string (c # cs) []")
        case None
        then show ?thesis using Cons str copy_string_acc [of "c # cs" out] by simp
      next
        case (Some a)
        obtain json lit where a: "a = (json, lit)" by (cases a)
        have "length json < length p"
          using Some a Cons by (auto dest!: copy_string_length)
        from less [OF this, of "out @ lit"] less [OF this, of lit]
        show ?thesis using Cons str Some a copy_string_acc [of "c # cs" out]
          by (cases "minify_loop json []") simp_all
      qed
    next
      case other
      have step: "minify_loop (c # cs) o' = minify_loop cs (o' @ [c])" for o'
        using other by (cases "c = 0x2F") simp_all
      show ?thesis
        unfolding Cons step
        using less [OF l, of "out @ [c]"] less [OF l, of "[c]"]
        by (cases "minify_loop cs []") simp_all
    qed
  qed
qed

subsection \<open>What one pass does\<close>

text \<open>The bytes the main loop drops as white space.\<close>

definition is_space :: "byte \<Rightarrow> bool" where
  "is_space c = (c = 0x20 \<or> c = 0x09 \<or> c = 0x0D \<or> c = 0x0A)"

text \<open>The cursor stands on \<^verbatim>\<open>//\<close> or \<^verbatim>\<open>/*\<close>.\<close>

definition comment_opener :: "byte list \<Rightarrow> bool" where
  "comment_opener p = (deref p = 0x2F \<and> (deref1 p = 0x2F \<or> deref1 p = 0x2A))"

text \<open>
  A text is free of comment openers when no \<^verbatim>\<open>//\<close> and no \<^verbatim>\<open>/*\<close> stands in it
  outside a string literal.  \<open>string_rest\<close> finds the text after the closing quote
  of a literal, given the text after its opening quote.
\<close>

fun string_rest :: "byte list \<Rightarrow> byte list option" where
  "string_rest [] = None"
| "string_rest (c # cs) =
     (if c = 0x22 then Some cs
      else if c = 0x5C then (case cs of [] \<Rightarrow> None | d # ds \<Rightarrow> string_rest ds)
      else string_rest cs)"

lemma string_rest_length: "string_rest p = Some r \<Longrightarrow> length r < length p"
  by (induction p rule: string_rest.induct) (auto split: if_splits list.splits)

function opener_free :: "byte list \<Rightarrow> bool" where
  "opener_free [] = True"
| "opener_free (c # cs) =
     (if c = 0x22 then (case string_rest cs of None \<Rightarrow> True | Some r \<Rightarrow> opener_free r)
      else \<not> comment_opener (c # cs) \<and> opener_free cs)"
  by pat_completeness auto
termination
  by (relation "measure length") (auto dest!: string_rest_length)

lemma minify_space: "is_space c \<Longrightarrow> cJSON_Minify (c # cs) = cJSON_Minify cs"
  by (auto simp: cJSON_Minify_def is_space_def)

lemma minify_line:
  "cJSON_Minify (0x2F # 0x2F # cs) = cJSON_Minify (skip_line_comment cs)"
  by (simp add: cJSON_Minify_def)

lemma minify_block:
  "cJSON_Minify (0x2F # 0x2A # cs) =
     (case advance 2 (skip_block_comment (0x2A # cs)) of None \<Rightarrow> None | Some r \<Rightarrow> cJSON_Minify r)"
  by (simp add: cJSON_Minify_def split: option.splits)

lemma minify_other:
  assumes "\<not> is_space c" "c \<noteq> 0x22" "\<not> comment_opener (c # cs)"
  shows "cJSON_Minify (c # cs) = map_option ((#) c) (cJSON_Minify cs)"
proof -
  have "minify_loop (c # cs) [] = minify_loop cs [c]"
    using assms by (cases "c = 0x2F") (simp_all add: is_space_def comment_opener_def deref1_def)
  then show ?thesis
    unfolding cJSON_Minify_def
    using minify_loop_acc [of cs "[c]"] by (cases "minify_loop cs []") simp_all
qed

lemma minify_string:
  "cJSON_Minify (0x22 # cs) =
     (case copy_string_body cs [] of
        None \<Rightarrow> None
      | Some ([], lit) \<Rightarrow> None
      | Some (e # r, lit) \<Rightarrow> map_option (\<lambda>t. 0x22 # lit @ e # t) (cJSON_Minify r))"
proof -
  have step: "minify_loop (0x22 # cs) [] =
      (case copy_string (0x22 # cs) [] of None \<Rightarrow> None | Some (json, out') \<Rightarrow> minify_loop json out')"
    by simp
  show ?thesis
  proof (cases "copy_string_body cs []")
    case None
    then show ?thesis
      unfolding cJSON_Minify_def step
      using copy_string_body_acc [of cs "[0x22]"] by (simp add: copy_string_def)
  next
    case (Some a)
    obtain r lit where a: "a = (r, lit)" by (cases a)
    have b: "copy_string_body cs [0x22] = Some (r, 0x22 # lit)"
      using copy_string_body_acc [of cs "[0x22]"] Some a by simp
    show ?thesis
    proof (cases r)
      case Nil
      then show ?thesis
        unfolding cJSON_Minify_def step using Some a b by (simp add: copy_string_def)
    next
      case (Cons e r')
      then show ?thesis
        unfolding cJSON_Minify_def step
        using Some a b minify_loop_acc [of r' "0x22 # lit @ [e]"]
        by (cases "minify_loop r' []") (simp_all add: copy_string_def)
    qed
  qed
qed

text \<open>The body of a literal is found again when the literal is rescanned.\<close>

lemma copy_string_body_rescan:
  "copy_string_body p [] = Some (e # r, lit) \<Longrightarrow>
     e = 0x22 \<and> p = lit @ e # r \<and>
     copy_string_body (lit @ 0x22 # t) [] = Some (0x22 # t, lit) \<and>
     string_rest (lit @ 0x22 # t) = Some t"
proof (induction "length p" arbitrary: p lit rule: less_induct)
  case less
  show ?case
  proof (cases p)
    case Nil
    with less.prems show ?thesis by simp
  next
    case (Cons c cs)
    show ?thesis
    proof (cases "c = 0x22")
      case True
      with Cons less.prems show ?thesis by simp
    next
      case nq: False
      show ?thesis
      proof (cases "c = 0x5C")
        case True
        then obtain d ds where cs: "cs = d # ds"
          using less.prems Cons nq by (cases cs) auto
        have l: "length ds < length p" using Cons cs by simp
        obtain lit' where b: "copy_string_body ds [] = Some (e # r, lit')" and lit: "lit = c # d # lit'"
          using less.prems Cons nq True cs copy_string_body_acc [of ds "[c, d]"]
          by (cases "copy_string_body ds []") auto
        from less.hyps [OF l b] show ?thesis
          using Cons cs nq True lit copy_string_body_acc [of "lit' @ 0x22 # t" "[c, d]"]
          by simp
      next
        case False
        have l: "length cs < length p" using Cons by simp
        obtain lit' where b: "copy_string_body cs [] = Some (e # r, lit')" and lit: "lit = c # lit'"
          using less.prems Cons nq False copy_string_body_acc [of cs "[c]"]
          by (cases "copy_string_body cs []") auto
        from less.hyps [OF l b] show ?thesis
          using Cons nq False lit copy_string_body_acc [of "lit' @ 0x22 # t" "[c]"]
          by simp
      qed
    qed
  qed
qed

lemma minify_fixed:
  "cJSON_Minify T = Some out \<Longrightarrow> opener_free out \<Longrightarrow> cJSON_Minify out = Some out"
proof (induction "length T" arbitrary: T out rule: less_induct)
  case less
  show ?case
  proof (cases T)
    case Nil
    with less.prems show ?thesis by (simp add: cJSON_Minify_def)
  next
    case (Cons c cs)
    have l: "length cs < length T" using Cons by simp
    consider (ws) "is_space c"
      | (line) "c = 0x2F" "deref cs = 0x2F"
      | (block) "c = 0x2F" "deref cs = 0x2A"
      | (str) "c = 0x22"
      | (other) "\<not> is_space c" "c \<noteq> 0x22" "\<not> comment_opener (c # cs)"
      by (auto simp: comment_opener_def deref1_def)
    then show ?thesis
    proof cases
      case ws
      then show ?thesis using less.hyps [OF l] less.prems Cons by (simp add: minify_space)
    next
      case line
      then obtain ds where cs: "cs = 0x2F # ds" by (cases cs) auto
      have "length (skip_line_comment ds) < length T"
        using skip_line_comment_length [of ds] Cons cs by simp
      from less.hyps [OF this] show ?thesis
        using less.prems Cons cs line by (simp add: minify_line)
    next
      case block
      then obtain ds where cs: "cs = 0x2A # ds" by (cases cs) auto
      obtain r where r: "advance 2 (skip_block_comment (0x2A # ds)) = Some r"
        and m: "cJSON_Minify r = Some out"
        using less.prems(1) Cons cs block
        by (auto simp: minify_block split: option.splits)
      have "length r < length T"
        using r skip_block_comment_length [of "0x2A # ds"] Cons cs
        by (auto dest!: advance_length)
      from less.hyps [OF this m less.prems(2)] show ?thesis .
    next
      case str
      obtain e r lit out' where b: "copy_string_body cs [] = Some (e # r, lit)"
        and m: "cJSON_Minify r = Some out'" and out: "out = 0x22 # lit @ e # out'"
        using less.prems(1) Cons str
        by (auto simp: minify_string split: option.splits list.splits)
      note rs = copy_string_body_rescan [OF b, of out']
      have "length r < length T" using rs Cons by simp
      from less.hyps [OF this m] have "cJSON_Minify out' = Some out'"
        using less.prems(2) out rs by simp
      then show ?thesis
        using out rs by (simp add: minify_string)
    next
      case other
      obtain out' where m: "cJSON_Minify cs = Some out'" and out: "out = c # out'"
        using less.prems(1) Cons other by (auto simp: minify_other)
      have "\<not> comment_opener (c # out')" "opener_free out'"
        using less.prems(2) out other by simp_all
      with less.hyps [OF l m] show ?thesis
        using out other by (simp add: minify_other)
    qed
  qed
qed

subsection \<open>Minifying twice\<close>

definition minify_twice :: "byte list \<Rightarrow> byte list option" where
  "minify_twice T = Option.bind (cJSON_Minify T) cJSON_Minify"

text \<open>Scenario S7 of the specification: the input text and the expected result.\<close>

definition S7_input :: "byte list" where
  "S7_input = bytes (''{ \"a\" : 1, // c'' @ [CHR 0x0A] @ '' /* x */ \"b\":\"x // y\" }'')"

definition S7_output :: "byte list" where
  "S7_output = bytes ''{\"a\":1,\"b\":\"x // y\"}''"

lemma minify_S7: "cJSON_Minify S7_input = Some S7_output"
  by (simp add: S7_input_def S7_output_def cJSON_Minify_def bytes_def copy_string_def advance_def)

lemma opener_free_S7: "opener_free S7_output"
  by (simp add: S7_output_def bytes_def comment_opener_def deref1_def)

text \<open>
  Claim C6, as amended.  Whenever \<^verbatim>\<open>cJSON_Minify\<close> runs through a text \<open>T\<close> without
  leaving it, and its result shows no \<^verbatim>\<open>//\<close> and no \<^verbatim>\<open>/*\<close> outside its string
  literals, minifying the result again gives the same text:
  \<open>minify (minify T) = minify T\<close>.
\<close>

theorem minify_idempotent:
  assumes "cJSON_Minify T = Some out" and "opener_free out"
  shows "minify_twice T = cJSON_Minify T"
  using assms minify_fixed [OF assms] by (simp add: minify_twice_def)

theorem minify_idempotent_witness:
  "cJSON_Minify S7_input = Some S7_output \<and> opener_free S7_output \<and>
   minify_twice S7_input = cJSON_Minify S7_input"
  using minify_idempotent [OF minify_S7 opener_free_S7] minify_S7 opener_free_S7 by simp

text \<open>
  Claim C6 as stated fails: the text \<^verbatim>\<open>/ /\<close> minifies to \<^verbatim>\<open>//\<close>, because the
  blank between the slashes is dropped, and \<^verbatim>\<open>//\<close> minifies to the empty text,
  because it now opens a line comment.
\<close>

theorem minify_not_idempotent:
  "minify_twice (bytes ''/ /'') \<noteq> cJSON_Minify (bytes ''/ /'')"
  by (simp add: minify_twice_def cJSON_Minify_def bytes_def)

text \<open>
  Claim C7 says that comments outside string literals are dropped.  The scan for the
  closing \<^verbatim>\<open>*/\<close> starts on the opening slash, so in \<^verbatim>\<open>/*/\<close> the star of the opener
  and the slash after it are taken for the closer: of the comment \<^verbatim>\<open>/*/2,*/\<close> only
  the first three bytes are dropped and the rest is kept.
\<close>

theorem minify_block_comment_closed_by_opener:
  "cJSON_Minify (bytes ''[1,/*/2,*/3]'') = Some (bytes ''[1,2,*/3]'')"
  by (simp add: cJSON_Minify_def bytes_def advance_def)

text \<open>
  Claim C10 says that the read cursor never moves beyond the terminator.  On the text
  \<^verbatim>\<open>/*\<close> the comment loop stops on the terminator and the following
  \<^verbatim>\<open>json += 2\<close> moves the cursor two bytes beyond it, where the main loop reads
  next.
\<close>

theorem minify_unterminated_comment_leaves_string:
  "skip_block_comment (bytes ''/*'') = [] \<and> advance 2 [] = None \<and>
   cJSON_Minify (bytes ''/*'') = None"
  by (simp add: cJSON_Minify_def bytes_def advance_def)

section \<open>Allocation hooks and the print buffer\<close>

text \<open>
  \<^verbatim>\<open>hooks->malloc_fn(n)\<close> answers a request for \<open>n\<close> bytes with a block or with NULL
  (\<open>None\<close>).  The bytes of a fresh block are whatever the allocator hands out; an
  allocator keeps its contract when the block has the requested size.  Releasing memory
  (\<^verbatim>\<open>free_fn\<close>) has no effect on any value computed and is left out.
\<close>

record cJSON_Hooks =
  malloc_fn :: "nat \<Rightarrow> byte list option"

definition honest :: "cJSON_Hooks \<Rightarrow> bool" where
  "honest hooks = (\<forall>n blk. malloc_fn hooks n = Some blk \<longrightarrow> length blk = n)"

text \<open>
  \<^verbatim>\<open>typedef struct { unsigned char *buffer; size_t length; size_t offset; cjbool noalloc; } printbuffer;\<close>
  The width of \<^verbatim>\<open>size_t\<close> is the type parameter \<open>'w\<close>; its arithmetic wraps
  around.  A buffer pointer is NULL (\<open>None\<close>) or the block it points to.
\<close>

record (overloaded) 'w printbuffer =
  buffer :: "byte list option"
  length_pb :: "'w word"
  offset :: "'w word"
  noalloc :: bool

text \<open>\<^verbatim>\<open>#define max(a, b) ((a > b) ? a : b)\<close>\<close>

definition max_macro :: "'a::linorder \<Rightarrow> 'a \<Rightarrow> 'a" where
  "max_macro a b = (if a > b then a else b)"

text \<open>\<^verbatim>\<open>memcpy(dst, src, n)\<close> on blocks: the first \<open>n\<close> bytes of \<open>dst\<close> become those of \<open>src\<close>.\<close>

definition memcpy :: "byte list \<Rightarrow> byte list \<Rightarrow> nat \<Rightarrow> byte list" where
  "memcpy dst src n = take n src @ drop n dst"

text \<open>
  \<^verbatim>\<open>ensure(p, needed, hooks)\<close> returns \<^verbatim>\<open>p->buffer + p->offset\<close> (here: the offset
  at which the caller may write) or NULL, and the print buffer as it leaves it.
\<close>

definition ensure ::
  "'w::len printbuffer option \<Rightarrow> 'w word \<Rightarrow> cJSON_Hooks \<Rightarrow> 'w word option \<times> 'w printbuffer option"
where
  "ensure p needed hooks =
     (case p of
        None \<Rightarrow> (None, None)
      | Some pb \<Rightarrow>
          (case buffer pb of
             None \<Rightarrow> (None, Some pb)
           | Some buf \<Rightarrow>
               (let needed = needed + offset pb in
                if needed \<le> length_pb pb then (Some (offset pb), Some pb)
                else if noalloc pb then (None, Some pb)
                else
                  (let newsize = max_macro (length_pb pb) needed * 2 in
                   if newsize \<le> needed then (None, Some pb)
                   else
                     (case malloc_fn hooks (unat newsize) of
                        None \<Rightarrow> (None, Some (pb\<lparr>length_pb := 0, buffer := None\<rparr>))
                      | Some newbuffer \<Rightarrow>
                          (Some (offset pb),
                           Some (pb\<lparr>length_pb := newsize,
                                    buffer := Some (memcpy newbuffer buf (unat (length_pb pb)))\<rparr>)))))))"

text \<open>A print buffer is well formed when its block has the size it records.\<close>

definition wf_printbuffer :: "'w::len printbuffer \<Rightarrow> bool" where
  "wf_printbuffer pb = (case buffer pb of None \<Rightarrow> False | Some buf \<Rightarrow> length buf = unat (length_pb pb))"




text \<open>A print buffer of four bytes on a 64-bit \<^verbatim>\<open>size_t\<close>, and an allocator that serves every request.\<close>

definition pb4 :: "bool \<Rightarrow> 64 printbuffer" where
  "pb4 na = \<lparr>buffer = Some [0x5B, 0x31, 0, 0], length_pb = 4, offset = 2, noalloc = na\<rparr>"

definition hooks_ok :: cJSON_Hooks where
  "hooks_ok = \<lparr>malloc_fn = \<lambda>n. Some (replicate n 0)\<rparr>"


text \<open>
  The sum \<^verbatim>\<open>needed += p->offset\<close> is a \<^verbatim>\<open>size_t\<close> sum like the others: a request so
  large that the sum wraps around is compared by its wrapped value.
\<close>

lemma ensure_sum_wraps:
  "ensure (Some (pb4 True)) (2 ^ 64 - 1) hooks_ok = (Some 2, Some (pb4 True))"
  by (simp add: ensure_def pb4_def)

section \<open>Nodes\<close>

text \<open>
  A \<^verbatim>\<open>double\<close> is a finite value, an infinity or NaN.  A finite double is
  represented by the real number it denotes.
\<close>

datatype double = Finite real | PlusInfinity | MinusInfinity | NaN

text \<open>
  Modelled from the spec: the kind constants \<^verbatim>\<open>cJSON_False\<close> ... \<^verbatim>\<open>cJSON_Raw\<close> and the
  struct \<^verbatim>\<open>cJSON\<close> are declared in the header \<^verbatim>\<open>cJSON.h\<close>, which is not among the
  sources.  The kinds are those of the specification's data model; \<open>cJSON_Zero\<close> is the
  value 0 that \<^verbatim>\<open>memset\<close> leaves in a new node.  The struct has the fields that
  \<^verbatim>\<open>cJSON.c\<close> uses; \<^verbatim>\<open>next\<close> and \<^verbatim>\<open>child\<close> are addresses of nodes or NULL, the
  two strings are C strings or NULL.
\<close>

datatype cJSON_type =
  cJSON_Zero | cJSON_False | cJSON_True | cJSON_NULL | cJSON_Number | cJSON_String
  | cJSON_Array | cJSON_Object | cJSON_Raw

type_synonym addr = nat

record cJSON =
  next' :: "addr option"
  child :: "addr option"
  type :: cJSON_type
  string :: "byte list option"
  number :: double
  name :: "byte list option"
  is_reference :: bool
  string_is_const :: bool

section \<open>Parsing strings\<close>

text \<open>
  A parse function returns the pointer behind what it parsed, or NULL.  On the way to
  NULL it may store a pointer through the error pointer \<^verbatim>\<open>ep\<close>; \<open>Failed e\<close> is the
  NULL result, with \<open>e\<close> the pointer stored (\<open>None\<close>: \<^verbatim>\<open>*ep\<close> was not written).
\<close>

datatype 'a parsed = Failed "byte list option" | Parsed 'a

text \<open>\<^verbatim>\<open>str[i]\<close> for a C string \<open>str\<close>; the terminator reads as 0.\<close>

definition byte_at :: "byte list \<Rightarrow> nat \<Rightarrow> byte" where
  "byte_at str i = (if i < length str then str ! i else 0)"

text \<open>One round of the digit test of \<^verbatim>\<open>parse_hex4\<close>: the value added to \<open>h\<close>, if any.\<close>

definition hex_digit :: "byte \<Rightarrow> 32 word option" where
  "hex_digit c =
     (if 0x30 \<le> c \<and> c \<le> 0x39 then Some (ucast c - 0x30)
      else if 0x41 \<le> c \<and> c \<le> 0x46 then Some (10 + ucast c - 0x41)
      else if 0x61 \<le> c \<and> c \<le> 0x66 then Some (10 + ucast c - 0x61)
      else None)"

function parse_hex4_loop :: "nat \<Rightarrow> 32 word \<Rightarrow> byte list \<Rightarrow> 32 word" where
  "parse_hex4_loop i h str =
     (if i < 4 then
        (case hex_digit (deref str) of
           None \<Rightarrow> 0
         | Some d \<Rightarrow>
             (if i < 3 then parse_hex4_loop (i + 1) (push_bit 4 (h + d)) (tl str)
              else parse_hex4_loop (i + 1) (h + d) str))
      else h)"
  by pat_completeness auto
termination
  by (relation "measure (\<lambda>(i, h, str). 4 - i)") auto

definition parse_hex4 :: "byte list \<Rightarrow> 32 word" where
  "parse_hex4 str = parse_hex4_loop 0 0 str"

definition firstByteMark :: "nat \<Rightarrow> 32 word" where
  "firstByteMark len = [0x00, 0x00, 0xC0, 0xE0, 0xF0] ! len"

text \<open>
  The \<^verbatim>\<open>switch (len)\<close> that stores the UTF-8 bytes back to front, entered at
  \<^verbatim>\<open>case k\<close> and falling through to \<^verbatim>\<open>case 1\<close>.
\<close>

fun utf8_store :: "nat \<Rightarrow> nat \<Rightarrow> 32 word \<Rightarrow> byte list" where
  "utf8_store 0 len uc = []"
| "utf8_store (Suc 0) len uc = [ucast ((uc OR firstByteMark len) AND 0xFF)]"
| "utf8_store (Suc (Suc k)) len uc =
     utf8_store (Suc k) len (drop_bit 6 uc) @ [ucast ((uc OR 0x80) AND 0xBF)]"

definition utf8_len :: "32 word \<Rightarrow> nat" where
  "utf8_len uc = (if uc < 0x80 then 1 else if uc < 0x800 then 2 else if uc < 0x10000 then 3 else 4)"

definition utf8_encode :: "32 word \<Rightarrow> byte list" where
  "utf8_encode uc = utf8_store (utf8_len uc) (utf8_len uc) uc"

text \<open>
  \<^verbatim>\<open>case 'u'\<close> of the escape switch, with \<open>ptr\<close> on the \<^verbatim>\<open>u\<close>: the pointer it
  leaves (on the last hex digit) and the bytes it stores.
\<close>

definition parse_unicode :: "byte list \<Rightarrow> nat \<Rightarrow> nat \<Rightarrow> (nat \<times> byte list) parsed" where
  "parse_unicode str end_ptr ptr =
     (let uc = parse_hex4 (drop (ptr + 1) str);
          ptr = ptr + 4
      in
        if ptr \<ge> end_ptr then Failed (Some str)
        else if (uc \<ge> 0xDC00 \<and> uc \<le> 0xDFFF) \<or> uc = 0 then Failed (Some str)
        else if uc \<ge> 0xD800 \<and> uc \<le> 0xDBFF then
          (if ptr + 6 > end_ptr then Failed (Some str)
           else if byte_at str (ptr + 1) \<noteq> 0x5C \<or> byte_at str (ptr + 2) \<noteq> 0x75
           then Failed (Some str)
           else
             (let uc2 = parse_hex4 (drop (ptr + 3) str);
                  ptr = ptr + 6
              in
                if uc2 < 0xDC00 \<or> uc2 > 0xDFFF then Failed (Some str)
                else
                  Parsed (ptr,
                    utf8_encode (0x10000 + (push_bit 10 (uc AND 0x3FF) OR (uc2 AND 0x3FF))))))
        else Parsed (ptr, utf8_encode uc))"

text \<open>The escape switch, with \<open>ptr\<close> on the byte after the backslash.\<close>

definition unescape :: "byte list \<Rightarrow> nat \<Rightarrow> nat \<Rightarrow> (nat \<times> byte list) parsed" where
  "unescape str end_ptr ptr =
     (let c = byte_at str ptr in
        if c = 0x62 then Parsed (ptr, [0x08])
        else if c = 0x66 then Parsed (ptr, [0x0C])
        else if c = 0x6E then Parsed (ptr, [0x0A])
        else if c = 0x72 then Parsed (ptr, [0x0D])
        else if c = 0x74 then Parsed (ptr, [0x09])
        else if c = 0x22 \<or> c = 0x5C \<or> c = 0x2F then Parsed (ptr, [c])
        else if c = 0x75 then parse_unicode str end_ptr ptr
        else Failed (Some str))"

lemma unescape_advances: "unescape str end_ptr ptr = Parsed (ptr', bs) \<Longrightarrow> ptr \<le> ptr'"
  by (auto simp: unescape_def parse_unicode_def Let_def split: if_splits)

text \<open>
  The loop \<^verbatim>\<open>while (ptr < end_ptr)\<close> over the literal; \<open>out\<close> holds the bytes stored
  through \<^verbatim>\<open>ptr2\<close>.
\<close>

function parse_string_loop ::
  "byte list \<Rightarrow> nat \<Rightarrow> nat \<Rightarrow> byte list \<Rightarrow> (nat \<times> byte list) parsed"
where
  "parse_string_loop str end_ptr ptr out =
     (if ptr < end_ptr then
        (if byte_at str ptr \<noteq> 0x5C
         then parse_string_loop str end_ptr (ptr + 1) (out @ [byte_at str ptr])
         else
           (case unescape str end_ptr (ptr + 1) of
              Failed e \<Rightarrow> Failed e
            | Parsed (ptr', bs) \<Rightarrow> parse_string_loop str end_ptr (ptr' + 1) (out @ bs)))
      else Parsed (ptr, out))"
  by pat_completeness auto
termination
  by (relation "measure (\<lambda>(str, end_ptr, ptr, out). end_ptr - ptr)")
    (auto dest!: unescape_advances)

text \<open>
  The first loop of \<^verbatim>\<open>parse_string\<close>, which looks for the closing quote and counts
  the bytes to allocate.  \<open>None\<close>: a backslash is the last byte of the input.
\<close>

function find_end :: "byte list \<Rightarrow> nat \<Rightarrow> nat \<Rightarrow> (nat \<times> nat) option" where
  "find_end str end_ptr len =
     (if byte_at str end_ptr \<noteq> 0x22 \<and> byte_at str end_ptr \<noteq> 0 then
        (if byte_at str end_ptr = 0x5C then
           (if byte_at str (end_ptr + 1) = 0 then None
            else find_end str (end_ptr + 2) (len + 1))
         else find_end str (end_ptr + 1) (len + 1))
      else Some (end_ptr, len))"
  by pat_completeness auto
termination
  by (relation "measure (\<lambda>(str, end_ptr, len). length str - end_ptr)")
    (auto simp: byte_at_def split: if_splits)

definition parse_string ::
  "cJSON \<Rightarrow> byte list \<Rightarrow> cJSON_Hooks \<Rightarrow> (byte list \<times> cJSON) parsed"
where
  "parse_string item str hooks =
     (if deref str \<noteq> 0x22 then Failed (Some str)
      else
        (case find_end str 1 0 of
           None \<Rightarrow> Failed None
         | Some (end_ptr, len) \<Rightarrow>
             (case malloc_fn hooks (len + 1) of
                None \<Rightarrow> Failed None
              | Some blk \<Rightarrow>
                  (case parse_string_loop str end_ptr 1 [] of
                     Failed e \<Rightarrow> Failed e
                   | Parsed (ptr, out) \<Rightarrow>
                       Parsed (drop (if byte_at str ptr = 0x22 then ptr + 1 else ptr) str,
                               item\<lparr>string := Some out, type := cJSON_String\<rparr>)))))"

text \<open>\<^verbatim>\<open>cJSON_New_Item\<close> leaves a node of zero bytes.\<close>

definition zero_item :: cJSON where
  "zero_item = \<lparr>next' = None, child = None, type = cJSON_Zero, string = None,
     number = Finite 0, name = None, is_reference = False, string_is_const = False\<rparr>"

subsection \<open>Four hex digits\<close>

text \<open>
  The value of a hex digit, upper or lower case, and of four of them read as one number;
  \<open>None\<close> when a byte is not a hex digit.
\<close>

definition hex_value :: "byte \<Rightarrow> nat option" where
  "hex_value c =
     (if c \<in> set (bytes ''0123456789'') then Some (unat c - unat (of_char CHR ''0'' :: byte))
      else if c \<in> set (bytes ''ABCDEF'') then Some (unat c - unat (of_char CHR ''A'' :: byte) + 10)
      else if c \<in> set (bytes ''abcdef'') then Some (unat c - unat (of_char CHR ''a'' :: byte) + 10)
      else None)"

definition hex4_value :: "byte \<Rightarrow> byte \<Rightarrow> byte \<Rightarrow> byte \<Rightarrow> nat option" where
  "hex4_value a b c d =
     (case (hex_value a, hex_value b, hex_value c, hex_value d) of
        (Some x, Some y, Some z, Some w) \<Rightarrow> Some (((x * 16 + y) * 16 + z) * 16 + w)
      | _ \<Rightarrow> None)"

definition hex4_at :: "byte list \<Rightarrow> nat \<Rightarrow> nat option" where
  "hex4_at str i =
     hex4_value (byte_at str i) (byte_at str (i + 1)) (byte_at str (i + 2)) (byte_at str (i + 3))"

lemma unat_numeral_byte: "unat (c :: byte) = numeral k \<Longrightarrow> c = numeral k"
  by (metis le_refl le_unat_uoi of_nat_numeral word_unat_eq_iff)

lemma digit_bytes: "c \<in> set (bytes ''0123456789'') \<longleftrightarrow> 48 \<le> unat c \<and> unat c \<le> 57"
proof
  assume "c \<in> set (bytes ''0123456789'')"
  then show "48 \<le> unat c \<and> unat c \<le> 57" by (auto simp: bytes_def)
next
  assume "48 \<le> unat c \<and> unat c \<le> 57"
  then have "unat c = 48 \<or> unat c = 49 \<or> unat c = 50 \<or> unat c = 51 \<or> unat c = 52 \<or>
      unat c = 53 \<or> unat c = 54 \<or> unat c = 55 \<or> unat c = 56 \<or> unat c = 57"
    by presburger
  then have "c = 48 \<or> c = 49 \<or> c = 50 \<or> c = 51 \<or> c = 52 \<or> c = 53 \<or> c = 54 \<or> c = 55 \<or>
      c = 56 \<or> c = 57"
    by (blast dest: unat_numeral_byte)
  then show "c \<in> set (bytes ''0123456789'')" by (auto simp: bytes_def)
qed

lemma upper_bytes: "c \<in> set (bytes ''ABCDEF'') \<longleftrightarrow> 65 \<le> unat c \<and> unat c \<le> 70"
proof
  assume "c \<in> set (bytes ''ABCDEF'')"
  then show "65 \<le> unat c \<and> unat c \<le> 70" by (auto simp: bytes_def)
next
  assume "65 \<le> unat c \<and> unat c \<le> 70"
  then have "unat c = 65 \<or> unat c = 66 \<or> unat c = 67 \<or> unat c = 68 \<or> unat c = 69 \<or> unat c = 70"
    by presburger
  then have "c = 65 \<or> c = 66 \<or> c = 67 \<or> c = 68 \<or> c = 69 \<or> c = 70"
    by (blast dest: unat_numeral_byte)
  then show "c \<in> set (bytes ''ABCDEF'')" by (auto simp: bytes_def)
qed

lemma lower_bytes: "c \<in> set (bytes ''abcdef'') \<longleftrightarrow> 97 \<le> unat c \<and> unat c \<le> 102"
proof
  assume "c \<in> set (bytes ''abcdef'')"
  then show "97 \<le> unat c \<and> unat c \<le> 102" by (auto simp: bytes_def)
next
  assume "97 \<le> unat c \<and> unat c \<le> 102"
  then have "unat c = 97 \<or> unat c = 98 \<or> unat c = 99 \<or> unat c = 100 \<or> unat c = 101 \<or> unat c = 102"
    by presburger
  then have "c = 97 \<or> c = 98 \<or> c = 99 \<or> c = 100 \<or> c = 101 \<or> c = 102"
    by (blast dest: unat_numeral_byte)
  then show "c \<in> set (bytes ''abcdef'')" by (auto simp: bytes_def)
qed

lemma hex_value_unat:
  "hex_value c =
     (if 48 \<le> unat c \<and> unat c \<le> 57 then Some (unat c - 48)
      else if 65 \<le> unat c \<and> unat c \<le> 70 then Some (unat c - 55)
      else if 97 \<le> unat c \<and> unat c \<le> 102 then Some (unat c - 87)
      else None)"
  unfolding hex_value_def digit_bytes upper_bytes lower_bytes by simp

lemma hex_value_digit: "hex_digit c = map_option of_nat (hex_value c)"
proof -
  have "(ucast c :: 32 word) = of_nat (unat c)" by simp
  then show ?thesis
    unfolding hex_value_unat hex_digit_def
    by (simp add: word_le_nat_alt of_nat_diff)
qed

lemma hex_value_less: "hex_value c = Some v \<Longrightarrow> v < 16"
  by (auto simp: hex_value_unat split: if_splits)

subsection \<open>UTF-8\<close>

text \<open>
  The UTF-8 encoding of a code point in arithmetic terms: one to four bytes, the first
  byte marked \<open>0x00\<close>, \<open>0xC0\<close>, \<open>0xE0\<close> or \<open>0xF0\<close>, every further byte \<open>0x80\<close> plus six
  bits of the code point.
\<close>

definition utf8 :: "nat \<Rightarrow> byte list" where
  "utf8 cp =
     (if cp < 0x80 then [of_nat cp]
      else if cp < 0x800 then [of_nat (0xC0 + cp div 0x40), of_nat (0x80 + cp mod 0x40)]
      else if cp < 0x10000 then
        [of_nat (0xE0 + cp div 0x1000), of_nat (0x80 + cp div 0x40 mod 0x40),
         of_nat (0x80 + cp mod 0x40)]
      else
        [of_nat (0xF0 + cp div 0x40000), of_nat (0x80 + cp div 0x1000 mod 0x40),
         of_nat (0x80 + cp div 0x40 mod 0x40), of_nat (0x80 + cp mod 0x40)])"

lemma cont_gen:
  "take_bit (k + 2) (((n::nat) OR 2 ^ (k + 1)) AND (mask k OR 2 ^ (k + 1))) = 2 ^ (k + 1) + take_bit k n"
proof -
  have "(2::nat) ^ (k + 1) + take_bit k n = 2 ^ (k + 1) OR take_bit k n"
    by (rule disjunctive_add) (auto simp: bit_simps)
  moreover have "take_bit (k + 2) ((n OR 2 ^ (k + 1)) AND (mask k OR 2 ^ (k + 1))) = 2 ^ (k + 1) OR take_bit k n"
    by (rule bit_eqI) (auto simp: bit_simps)
  ultimately show ?thesis by simp
qed

lemmas cont_nat =
  cont_gen [of 6, simplified, unfolded take_bit_eq_mod mask_eq_exp_minus_1, simplified]

lemma cont_byte:
  "ucast (((x :: 32 word) OR 0x80) AND 0xBF) = (of_nat (0x80 + unat x mod 0x40) :: byte)"
proof -
  have "unat (ucast ((x OR 0x80) AND 0xBF) :: byte) = 128 + unat x mod 64"
    by (simp add: unsigned_ucast_eq unsigned_and_eq unsigned_or_eq unsigned_take_bit_eq
        take_bit_eq_mod cont_nat)
  then show ?thesis
    by (metis of_nat_unat ucast_id)
qed

lemma first_gen:
  assumes "(m::nat) < 2 ^ j" "push_bit j q + m < 2 ^ 8"
  shows "take_bit 8 ((m OR push_bit j q) AND mask 8) = push_bit j q + m"
proof -
  have m: "take_bit j m = m" using assms(1) by (simp add: take_bit_eq_mod)
  have "push_bit j q + take_bit j m = push_bit j q OR take_bit j m"
    by (rule disjunctive_add) (auto simp: bit_simps)
  then have "m OR push_bit j q = push_bit j q + m"
    by (simp add: m or.commute)
  then show ?thesis using assms(2) by (simp add: take_bit_eq_mask [symmetric] take_bit_eq_mod)
qed

lemma first_byte:
  fixes x :: "32 word"
  assumes "unat x < 2 ^ j" "push_bit j q + unat x < 2 ^ 8" "mark = push_bit j q"
  shows "ucast ((x OR of_nat mark) AND 0xFF) = (of_nat (mark + unat x) :: byte)"
proof -
  have mk: "mark < 2 ^ 32" using assms by simp
  have c: "unat (0xFF :: 32 word) = mask 8" by (simp add: mask_eq_exp_minus_1)
  have d: "unat (of_nat mark :: 32 word) = push_bit j q"
    using mk assms(3) by (simp add: unat_of_nat)
  have "unat (ucast ((x OR of_nat mark) AND 0xFF) :: byte) =
      take_bit 8 ((unat x OR push_bit j q) AND mask 8)"
    by (simp only: unsigned_ucast_eq unsigned_and_eq unsigned_or_eq c d) simp
  also have "\<dots> = mark + unat x"
    using first_gen [OF assms(1,2)] assms(3) by simp
  finally show ?thesis
    by (metis of_nat_unat ucast_id)
qed

lemma unat_drop6: "unat (drop_bit k (x :: 32 word)) = unat x div 2 ^ k"
  by (subst unat_drop_bit_eq) (simp add: drop_bit_eq_div)

lemma firstByteMark_values:
  "firstByteMark 1 = 0" "firstByteMark 2 = 0xC0" "firstByteMark 3 = 0xE0" "firstByteMark 4 = 0xF0"
  by (simp_all add: firstByteMark_def eval_nat_numeral)

lemma utf8_store_unfold:
  "utf8_store 1 len uc = [ucast ((uc OR firstByteMark len) AND 0xFF)]"
  "utf8_store 2 len uc =
     [ucast ((drop_bit 6 uc OR firstByteMark len) AND 0xFF), ucast ((uc OR 0x80) AND 0xBF)]"
  "utf8_store 3 len uc =
     [ucast ((drop_bit 12 uc OR firstByteMark len) AND 0xFF),
      ucast ((drop_bit 6 uc OR 0x80) AND 0xBF), ucast ((uc OR 0x80) AND 0xBF)]"
  "utf8_store 4 len uc =
     [ucast ((drop_bit 18 uc OR firstByteMark len) AND 0xFF),
      ucast ((drop_bit 12 uc OR 0x80) AND 0xBF),
      ucast ((drop_bit 6 uc OR 0x80) AND 0xBF), ucast ((uc OR 0x80) AND 0xBF)]"
proof -
  have n: "(2::nat) = Suc (Suc 0)" "(3::nat) = Suc (Suc (Suc 0))"
    "(4::nat) = Suc (Suc (Suc (Suc 0)))"
    by simp_all
  show "utf8_store 1 len uc = [ucast ((uc OR firstByteMark len) AND 0xFF)]"
    by simp
  show "utf8_store 2 len uc =
     [ucast ((drop_bit 6 uc OR firstByteMark len) AND 0xFF), ucast ((uc OR 0x80) AND 0xBF)]"
    unfolding n(1) by simp
  show "utf8_store 3 len uc =
     [ucast ((drop_bit 12 uc OR firstByteMark len) AND 0xFF),
      ucast ((drop_bit 6 uc OR 0x80) AND 0xBF), ucast ((uc OR 0x80) AND 0xBF)]"
    unfolding n(2) by simp
  show "utf8_store 4 len uc =
     [ucast ((drop_bit 18 uc OR firstByteMark len) AND 0xFF),
      ucast ((drop_bit 12 uc OR 0x80) AND 0xBF),
      ucast ((drop_bit 6 uc OR 0x80) AND 0xBF), ucast ((uc OR 0x80) AND 0xBF)]"
    unfolding n(3) by simp
qed

lemma utf8_encode_utf8:
  assumes "uc < 0x110000"
  shows "utf8_encode uc = utf8 (unat uc)"
proof -
  have n: "unat uc < 0x110000" using assms by (simp add: word_less_nat_alt)
  consider (one) "unat uc < 0x80" | (two) "0x80 \<le> unat uc" "unat uc < 0x800"
    | (three) "0x800 \<le> unat uc" "unat uc < 0x10000" | (four) "0x10000 \<le> unat uc"
    by linarith
  then show ?thesis
  proof cases
    case one
    then have len: "utf8_len uc = 1" by (simp add: utf8_len_def word_less_nat_alt)
    have "ucast ((uc OR of_nat 0) AND 0xFF) = (of_nat (0 + unat uc) :: byte)"
      by (rule first_byte [where j = 7 and q = 0]) (use one in simp_all)
    then show ?thesis
      using one
      by (simp add: utf8_encode_def len utf8_def utf8_store_unfold firstByteMark_values
          del: One_nat_def)
  next
    case two
    then have len: "utf8_len uc = 2" by (simp add: utf8_len_def word_less_nat_alt)
    have "ucast ((drop_bit 6 uc OR of_nat 0xC0) AND 0xFF) = (of_nat (0xC0 + unat (drop_bit 6 uc)) :: byte)"
      by (rule first_byte [where j = 5 and q = 6]) (use two in \<open>simp_all add: unat_drop6\<close>)
    then show ?thesis
      using two by (simp add: utf8_encode_def len utf8_def utf8_store_unfold firstByteMark_values
          cont_byte unat_drop6)
  next
    case three
    then have len: "utf8_len uc = 3" by (simp add: utf8_len_def word_less_nat_alt)
    have "ucast ((drop_bit 12 uc OR of_nat 0xE0) AND 0xFF) =
        (of_nat (0xE0 + unat (drop_bit 12 uc)) :: byte)"
      by (rule first_byte [where j = 4 and q = 14]) (use three in \<open>simp_all add: unat_drop6\<close>)
    then show ?thesis
      using three
      by (simp add: utf8_encode_def len utf8_def utf8_store_unfold firstByteMark_values
          cont_byte unat_drop6)
  next
    case four
    then have len: "utf8_len uc = 4" by (simp add: utf8_len_def word_less_nat_alt)
    have "ucast ((drop_bit 18 uc OR of_nat 0xF0) AND 0xFF) =
        (of_nat (0xF0 + unat (drop_bit 18 uc)) :: byte)"
      by (rule first_byte [where j = 3 and q = 30]) (use four n in \<open>simp_all add: unat_drop6\<close>)
    then show ?thesis
      using four
      by (simp add: utf8_encode_def len utf8_def utf8_store_unfold firstByteMark_values
          cont_byte unat_drop6)
  qed
qed

subsection \<open>Unicode escapes\<close>

declare parse_hex4_loop.simps [simp del] parse_string_loop.simps [simp del] find_end.simps [simp del]

lemma deref_drop: "deref (drop i str) = byte_at str i"
proof (cases "i < length str")
  case True
  then show ?thesis by (simp add: byte_at_def Cons_nth_drop_Suc [symmetric])
next
  case False
  then show ?thesis by (simp add: byte_at_def)
qed

lemma tl_drop_Suc: "tl (drop i str) = drop (Suc i) str"
  by (simp add: drop_Suc drop_tl)

lemma parse_hex4_unfold:
  "parse_hex4 s =
     (case hex_digit (deref s) of None \<Rightarrow> 0 | Some a \<Rightarrow>
      case hex_digit (deref (tl s)) of None \<Rightarrow> 0 | Some b \<Rightarrow>
      case hex_digit (deref (tl (tl s))) of None \<Rightarrow> 0 | Some c \<Rightarrow>
      case hex_digit (deref (tl (tl (tl s)))) of None \<Rightarrow> 0 | Some d \<Rightarrow>
        push_bit 4 (push_bit 4 (push_bit 4 a + b) + c) + d)"
  unfolding parse_hex4_def
  by (simp add: parse_hex4_loop.simps [of 0] parse_hex4_loop.simps [of "Suc 0"]
      parse_hex4_loop.simps [of "Suc (Suc 0)"] parse_hex4_loop.simps [of "Suc (Suc (Suc 0))"]
      parse_hex4_loop.simps [of "Suc (Suc (Suc (Suc 0)))"]
      split: option.splits)

lemma parse_hex4_value:
  "parse_hex4 (drop i str) = (case hex4_at str i of None \<Rightarrow> 0 | Some v \<Rightarrow> of_nat v)"
  unfolding parse_hex4_unfold hex4_at_def hex4_value_def
  by (simp add: deref_drop tl_drop_Suc hex_value_digit push_bit_eq_mult numeral_2_eq_2 numeral_3_eq_3
      split: option.splits)

lemma hex4_at_less: "hex4_at str i = Some v \<Longrightarrow> v < 0x10000"
  unfolding hex4_at_def hex4_value_def
  by (auto split: option.splits dest!: hex_value_less)

text \<open>The code point of a surrogate pair, as the specification combines the halves.\<close>

definition surrogate_pair :: "nat \<Rightarrow> nat \<Rightarrow> nat" where
  "surrogate_pair hi lo = 0x10000 + (push_bit 10 (hi AND 0x3FF) OR (lo AND 0x3FF))"

lemma mask10: "(0x3FF::nat) = mask 10"
  by (simp add: mask_eq_exp_minus_1)

lemma surrogate_pair_arith:
  "surrogate_pair hi lo = 0x10000 + (hi mod 0x400) * 0x400 + lo mod 0x400"
proof -
  have "push_bit 10 (take_bit 10 hi) + take_bit 10 lo = push_bit 10 (take_bit 10 hi) OR take_bit 10 lo"
    by (rule disjunctive_add) (auto simp: bit_simps)
  then show ?thesis
    unfolding surrogate_pair_def mask10 take_bit_eq_mask [symmetric]
    by (simp add: take_bit_eq_mod push_bit_eq_mult)
qed

lemma surrogate_pair_less: "surrogate_pair hi lo < 0x110000"
proof -
  have "hi mod 0x400 * 0x400 \<le> 0x3FF * 0x400"
    by (rule mult_right_mono) simp_all
  moreover have "lo mod 0x400 < 0x400" by simp
  ultimately show ?thesis unfolding surrogate_pair_arith by linarith
qed

text \<open>The same code point in the code's 32-bit arithmetic.\<close>

lemma surrogate_pair_word:
  fixes uc uc2 :: "32 word"
  shows "0x10000 + (push_bit 10 (uc AND 0x3FF) OR (uc2 AND 0x3FF)) =
     (of_nat (surrogate_pair (unat uc) (unat uc2)) :: 32 word)"
proof -
  have m: "(0x3FF :: 32 word) = mask 10" by (simp add: mask_eq_exp_minus_1)
  have "push_bit 10 (take_bit 10 uc) + take_bit 10 uc2 = push_bit 10 (take_bit 10 uc) OR take_bit 10 uc2"
    by (rule disjunctive_add) (auto simp: bit_simps)
  then have "0x10000 + (push_bit 10 (uc AND 0x3FF) OR (uc2 AND 0x3FF)) =
      0x10000 + (push_bit 10 (take_bit 10 uc) + take_bit 10 uc2)"
    unfolding m take_bit_eq_mask [symmetric] by simp
  also have "\<dots> = of_nat (0x10000 + (unat uc mod 0x400) * 0x400 + unat uc2 mod 0x400)"
    by (simp add: push_bit_eq_mult take_bit_eq_mod word_arith_nat_mod of_nat_mod unat_mod)
  finally show ?thesis by (simp only: surrogate_pair_arith)
qed

lemma unat_of_nat_hex4: "v < 0x10000 \<Longrightarrow> unat (of_nat v :: 32 word) = v"
  by (simp add: unat_of_nat)

lemma word_of_nat_cmp:
  assumes "v < 0x10000"
  shows "(of_nat v :: 32 word) \<le> numeral k \<longleftrightarrow> v \<le> unat (numeral k :: 32 word)"
    and "(numeral k :: 32 word) \<le> of_nat v \<longleftrightarrow> unat (numeral k :: 32 word) \<le> v"
    and "(of_nat v :: 32 word) < numeral k \<longleftrightarrow> v < unat (numeral k :: 32 word)"
    and "(numeral k :: 32 word) < of_nat v \<longleftrightarrow> unat (numeral k :: 32 word) < v"
    and "(of_nat v :: 32 word) = 0 \<longleftrightarrow> v = 0"
  using unat_of_nat_hex4 [OF assms]
  by (simp_all only: word_le_nat_alt word_less_nat_alt unat_eq_0 [symmetric])

lemma surrogate_bounds:
  "unat (0xDC00 :: 32 word) = 0xDC00" "unat (0xDFFF :: 32 word) = 0xDFFF"
  "unat (0xD800 :: 32 word) = 0xD800" "unat (0xDBFF :: 32 word) = 0xDBFF"
  by simp_all

lemma parse_unicode_raw:
  "parse_unicode str end_ptr p =
     (case hex4_at str (p + 1) of
        None \<Rightarrow> Failed (Some str)
      | Some uc \<Rightarrow>
          if end_ptr \<le> p + 4 \<or> uc = 0 \<or> (0xDC00 \<le> uc \<and> uc \<le> 0xDFFF) then Failed (Some str)
          else if 0xD800 \<le> uc \<and> uc \<le> 0xDBFF then
            (if end_ptr < p + 4 + 6 \<or> byte_at str (p + 4 + 1) \<noteq> 0x5C \<or>
                byte_at str (p + 4 + 2) \<noteq> 0x75
             then Failed (Some str)
             else
               (case hex4_at str (p + 4 + 3) of
                  None \<Rightarrow> Failed (Some str)
                | Some lo \<Rightarrow>
                    if 0xDC00 \<le> lo \<and> lo \<le> 0xDFFF
                    then Parsed (p + 4 + 6, utf8 (surrogate_pair uc lo))
                    else Failed (Some str)))
          else Parsed (p + 4, utf8 uc))"
proof (cases "hex4_at str (p + 1)")
  case None
  then show ?thesis
    by (simp add: parse_unicode_def parse_hex4_value Let_def)
next
  case (Some uc)
  then have uc: "uc < 0x10000" by (rule hex4_at_less)
  note u = unat_of_nat_hex4 [OF uc]
  have enc: "utf8_encode (of_nat uc) = utf8 uc"
    using utf8_encode_utf8 [of "of_nat uc"] uc by (simp add: word_less_nat_alt u)
  show ?thesis
  proof (cases "hex4_at str (p + 4 + 3)")
    case None
    then show ?thesis
      unfolding parse_unicode_def Let_def parse_hex4_value Some option.case
        word_of_nat_cmp [OF uc] surrogate_bounds enc
      by (simp only: option.case not_le not_less if_True if_False linorder_not_le split: if_splits)
        auto
  next
    case lo: (Some lo)
    then have l: "lo < 0x10000" by (rule hex4_at_less)
    note ul = unat_of_nat_hex4 [OF l]
    have w: "0x10000 + (push_bit 10 (of_nat uc AND 0x3FF) OR (of_nat lo AND 0x3FF)) =
        (of_nat (surrogate_pair uc lo) :: 32 word)"
      using surrogate_pair_word [of "of_nat uc" "of_nat lo"] unfolding u ul .
    have "utf8_encode (of_nat (surrogate_pair uc lo)) = utf8 (surrogate_pair uc lo)"
      using utf8_encode_utf8 [of "of_nat (surrogate_pair uc lo)"] surrogate_pair_less [of uc lo]
      by (simp add: word_less_nat_alt unat_of_nat)
    then have enc2: "utf8_encode (0x10000 + (push_bit 10 (of_nat uc AND 0x3FF) OR (of_nat lo AND 0x3FF))) =
        utf8 (surrogate_pair uc lo)"
      unfolding w .
    show ?thesis
      unfolding parse_unicode_def Let_def parse_hex4_value Some lo option.case
        word_of_nat_cmp [OF uc] word_of_nat_cmp [OF l] surrogate_bounds enc enc2
      by (simp only: option.case not_le not_less if_True if_False linorder_not_le split: if_splits)
        auto
  qed
qed

text \<open>Scenario S4 of the specification: the literal of the escapes \<^verbatim>\<open>\uD83D\udc31\<close>.\<close>

definition S4_text :: "byte list" where
  "S4_text = [0x22, 0x5C] @ bytes ''uD83D'' @ [0x5C] @ bytes ''udc31'' @ [0x22]"

lemma S4_find_end: "find_end S4_text 1 0 = Some (13, 10)"
  by code_simp

lemma S4_loop: "parse_string_loop S4_text 13 1 [] = Parsed (13, [0xF0, 0x9F, 0x90, 0xB1])"
  by code_simp

lemma S4_parse:
  "malloc_fn hooks 11 = Some blk \<Longrightarrow>
   parse_string item S4_text hooks =
     Parsed ([], item\<lparr>string := Some [0xF0, 0x9F, 0x90, 0xB1], type := cJSON_String\<rparr>)"
proof -
  assume m: "malloc_fn hooks 11 = Some blk"
  have a: "deref S4_text = 0x22" by (simp add: S4_text_def)
  have b: "byte_at S4_text 13 = 0x22" by code_simp
  have c: "drop 14 S4_text = []" by (simp add: S4_text_def bytes_def)
  show ?thesis using m by (simp add: parse_string_def a b c S4_find_end S4_loop del: One_nat_def)
qed

lemma utf8_length: "1 \<le> length (utf8 cp) \<and> length (utf8 cp) \<le> 4"
  by (simp add: utf8_def)

lemma loop_on_unicode_escape:
  assumes "ptr < end_ptr" "byte_at str ptr = 0x5C" "byte_at str (ptr + 1) = 0x75"
  shows "parse_string_loop str end_ptr ptr out =
     (case parse_unicode str end_ptr (ptr + 1) of
        Failed e \<Rightarrow> Failed e
      | Parsed (ptr', bs) \<Rightarrow> parse_string_loop str end_ptr (ptr' + 1) (out @ bs))"
  using assms by (subst parse_string_loop.simps) (simp add: unescape_def)

text \<open>
  Claim C1.  Let the decoding loop of \<^verbatim>\<open>parse_string\<close> stand on a backslash followed by
  \<^verbatim>\<open>u\<close>, inside the literal (\<open>ptr < end_ptr\<close>), whatever it has decoded so far.  The
  four bytes after the \<^verbatim>\<open>u\<close> are read as hex digits of either case (\<open>hex4_at\<close>).
  \<^item> If one of them is no hex digit, the parse fails (NULL).
  \<^item> If they spell 0, or a low surrogate \<open>0xDC00..0xDFFF\<close>, the parse fails.
  \<^item> If they spell a high surrogate \<open>0xD800..0xDBFF\<close>, the parse fails unless the next
    six bytes, still inside the literal, are \<^verbatim>\<open>\u\<close> and four hex digits that spell a low
    surrogate; then the loop goes on behind the twelve bytes, having stored the UTF-8
    bytes of \<open>0x10000 + (((hi AND 0x3FF) << 10) OR (lo AND 0x3FF))\<close>.
  \<^item> Any other value, with the six bytes inside the literal, is stored as its UTF-8 bytes
    and the loop goes on behind the six bytes.
  \<^item> The UTF-8 bytes of a code point are one to four.
  \<^item> Scenario S4: parsing the literal of \<^verbatim>\<open>\uD83D\udc31\<close> gives a String node with the payload
    \<open>F0 9F 90 B1\<close>.
\<close>

theorem unicode_escape:
  fixes str :: "byte list"
  defines "hi \<equiv> hex4_at str"
  assumes "ptr < end_ptr" and "byte_at str ptr = 0x5C" and "byte_at str (ptr + 1) = 0x75"
  shows
    "(hi (ptr + 2) = None \<longrightarrow> parse_string_loop str end_ptr ptr out = Failed (Some str)) \<and>
     (hi (ptr + 2) = Some 0 \<longrightarrow> parse_string_loop str end_ptr ptr out = Failed (Some str)) \<and>
     (hi (ptr + 2) = Some uc \<and> 0xDC00 \<le> uc \<and> uc \<le> 0xDFFF \<longrightarrow>
        parse_string_loop str end_ptr ptr out = Failed (Some str)) \<and>
     (hi (ptr + 2) = Some uc \<and> 0xD800 \<le> uc \<and> uc \<le> 0xDBFF \<and>
      \<not> (ptr + 11 \<le> end_ptr \<and> byte_at str (ptr + 6) = 0x5C \<and> byte_at str (ptr + 7) = 0x75 \<and>
         (\<exists>l. hi (ptr + 8) = Some l \<and> 0xDC00 \<le> l \<and> l \<le> 0xDFFF)) \<longrightarrow>
        parse_string_loop str end_ptr ptr out = Failed (Some str)) \<and>
     (hi (ptr + 2) = Some uc \<and> 0xD800 \<le> uc \<and> uc \<le> 0xDBFF \<and>
      ptr + 11 \<le> end_ptr \<and> byte_at str (ptr + 6) = 0x5C \<and> byte_at str (ptr + 7) = 0x75 \<and>
      hi (ptr + 8) = Some lo \<and> 0xDC00 \<le> lo \<and> lo \<le> 0xDFFF \<longrightarrow>
        parse_string_loop str end_ptr ptr out =
        parse_string_loop str end_ptr (ptr + 12) (out @ utf8 (surrogate_pair uc lo))) \<and>
     (hi (ptr + 2) = Some uc \<and> 0 < uc \<and> (uc < 0xD800 \<or> 0xDFFF < uc) \<and> ptr + 5 < end_ptr \<longrightarrow>
        parse_string_loop str end_ptr ptr out =
        parse_string_loop str end_ptr (ptr + 6) (out @ utf8 uc)) \<and>
     1 \<le> length (utf8 cp) \<and> length (utf8 cp) \<le> 4 \<and>
     (malloc_fn hooks 11 = Some blk \<longrightarrow>
        parse_string item S4_text hooks =
        Parsed ([], item\<lparr>string := Some [0xF0, 0x9F, 0x90, 0xB1], type := cJSON_String\<rparr>))"
proof -
  have idx: "ptr + 1 + 1 = ptr + 2" "ptr + 1 + 4 = ptr + 5" "ptr + 5 + 1 = ptr + 6"
    "ptr + 5 + 2 = ptr + 7" "ptr + 5 + 3 = ptr + 8" "ptr + 5 + 6 = ptr + 11"
    "ptr + 11 + 1 = ptr + 12"
    by simp_all
  note step = loop_on_unicode_escape [OF assms(2,3,4), of out, unfolded parse_unicode_raw idx]
  have 1: "hi (ptr + 2) = None \<longrightarrow> parse_string_loop str end_ptr ptr out = Failed (Some str)"
    unfolding step hi_def by simp
  have 2: "hi (ptr + 2) = Some 0 \<longrightarrow> parse_string_loop str end_ptr ptr out = Failed (Some str)"
    unfolding step hi_def by simp
  have 3: "hi (ptr + 2) = Some uc \<and> 0xDC00 \<le> uc \<and> uc \<le> 0xDFFF \<longrightarrow>
        parse_string_loop str end_ptr ptr out = Failed (Some str)"
    unfolding step hi_def by simp
  have 4: "hi (ptr + 2) = Some uc \<and> 0xD800 \<le> uc \<and> uc \<le> 0xDBFF \<and>
      \<not> (ptr + 11 \<le> end_ptr \<and> byte_at str (ptr + 6) = 0x5C \<and> byte_at str (ptr + 7) = 0x75 \<and>
         (\<exists>l. hi (ptr + 8) = Some l \<and> 0xDC00 \<le> l \<and> l \<le> 0xDFFF)) \<longrightarrow>
        parse_string_loop str end_ptr ptr out = Failed (Some str)"
    unfolding step hi_def by (auto split: option.splits)
  have 5: "hi (ptr + 2) = Some uc \<and> 0xD800 \<le> uc \<and> uc \<le> 0xDBFF \<and>
      ptr + 11 \<le> end_ptr \<and> byte_at str (ptr + 6) = 0x5C \<and> byte_at str (ptr + 7) = 0x75 \<and>
      hi (ptr + 8) = Some lo \<and> 0xDC00 \<le> lo \<and> lo \<le> 0xDFFF \<longrightarrow>
        parse_string_loop str end_ptr ptr out =
        parse_string_loop str end_ptr (ptr + 12) (out @ utf8 (surrogate_pair uc lo))"
    unfolding step hi_def by (auto simp: add.commute)
  have 6: "hi (ptr + 2) = Some uc \<and> 0 < uc \<and> (uc < 0xD800 \<or> 0xDFFF < uc) \<and> ptr + 5 < end_ptr \<longrightarrow>
        parse_string_loop str end_ptr ptr out =
        parse_string_loop str end_ptr (ptr + 6) (out @ utf8 uc)"
    unfolding step hi_def by (auto simp: add.commute)
  from 1 2 3 4 5 6 utf8_length [of cp] S4_parse [of hooks blk item]
  show ?thesis by blast
qed

text \<open>Literals with one escape each: a euro sign, a digit that is not hex, the code point 0,
  a low surrogate alone, and a high surrogate followed by a letter.\<close>

definition esc_euro :: "byte list" where "esc_euro = [0x22, 0x5C] @ bytes ''u20AC'' @ [0x22]"
definition esc_nohex :: "byte list" where "esc_nohex = [0x22, 0x5C] @ bytes ''u12G4'' @ [0x22]"
definition esc_zero :: "byte list" where "esc_zero = [0x22, 0x5C] @ bytes ''u0000'' @ [0x22]"
definition esc_low :: "byte list" where "esc_low = [0x22, 0x5C] @ bytes ''udc31'' @ [0x22]"
definition esc_high :: "byte list" where "esc_high = [0x22, 0x5C] @ bytes ''uD83Dxudc31'' @ [0x22]"

theorem unicode_escape_witness:
  "parse_string_loop S4_text 13 1 [] =
     parse_string_loop S4_text 13 13 ([] @ utf8 (surrogate_pair 0xD83D 0xDC31)) \<and>
   utf8 (surrogate_pair 0xD83D 0xDC31) = [0xF0, 0x9F, 0x90, 0xB1] \<and>
   parse_string zero_item S4_text hooks_ok =
     Parsed ([], zero_item\<lparr>string := Some [0xF0, 0x9F, 0x90, 0xB1], type := cJSON_String\<rparr>) \<and>
   parse_string_loop esc_euro 7 1 [] = parse_string_loop esc_euro 7 7 ([] @ utf8 0x20AC) \<and>
   utf8 0x20AC = [0xE2, 0x82, 0xAC] \<and>
   parse_string_loop esc_nohex 7 1 [] = Failed (Some esc_nohex) \<and>
   parse_string_loop esc_zero 7 1 [] = Failed (Some esc_zero) \<and>
   parse_string_loop esc_low 7 1 [] = Failed (Some esc_low) \<and>
   parse_string_loop esc_high 13 1 [] = Failed (Some esc_high)"
proof -
  have m: "malloc_fn hooks_ok 11 = Some (replicate 11 0)"
    by (simp add: hooks_ok_def)
  have s4_b: "byte_at S4_text 1 = 0x5C" "byte_at S4_text (1 + 1) = 0x75" "byte_at S4_text (1 + 6) = 0x5C" "byte_at S4_text (1 + 7) = 0x75"
    by code_simp+
  have s4_h: "hex4_at S4_text (1 + 2) = Some 0xD83D" "hex4_at S4_text (1 + 8) = Some 0xDC31"
    by (simp_all add: hex4_at_def hex4_value_def hex_value_unat byte_at_def S4_text_def S4_text_def bytes_def)
  note s4 = s4_b s4_h
  have euro_b: "byte_at esc_euro 1 = 0x5C" "byte_at esc_euro (1 + 1) = 0x75"
    by code_simp+
  have euro_h: "hex4_at esc_euro (1 + 2) = Some 0x20AC"
    by (simp_all add: hex4_at_def hex4_value_def hex_value_unat byte_at_def esc_euro_def S4_text_def bytes_def)
  note euro = euro_b euro_h
  have nohex_b: "byte_at esc_nohex 1 = 0x5C" "byte_at esc_nohex (1 + 1) = 0x75"
    by code_simp+
  have nohex_h: "hex4_at esc_nohex (1 + 2) = None"
    by (simp_all add: hex4_at_def hex4_value_def hex_value_unat byte_at_def esc_nohex_def S4_text_def bytes_def)
  note nohex = nohex_b nohex_h
  have zero_b: "byte_at esc_zero 1 = 0x5C" "byte_at esc_zero (1 + 1) = 0x75"
    by code_simp+
  have zero_h: "hex4_at esc_zero (1 + 2) = Some 0"
    by (simp_all add: hex4_at_def hex4_value_def hex_value_unat byte_at_def esc_zero_def S4_text_def bytes_def)
  note zero = zero_b zero_h
  have low_b: "byte_at esc_low 1 = 0x5C" "byte_at esc_low (1 + 1) = 0x75"
    by code_simp+
  have low_h: "hex4_at esc_low (1 + 2) = Some 0xDC31"
    by (simp_all add: hex4_at_def hex4_value_def hex_value_unat byte_at_def esc_low_def S4_text_def bytes_def)
  note low = low_b low_h
  have high_b: "byte_at esc_high 1 = 0x5C" "byte_at esc_high (1 + 1) = 0x75" "byte_at esc_high (1 + 6) = 0x78"
    by code_simp+
  have high_h: "hex4_at esc_high (1 + 2) = Some 0xD83D"
    by (simp_all add: hex4_at_def hex4_value_def hex_value_unat byte_at_def esc_high_def S4_text_def bytes_def)
  note high = high_b high_h
  have u1: "utf8 (surrogate_pair 0xD83D 0xDC31) = [0xF0, 0x9F, 0x90, 0xB1]"
    by (simp add: surrogate_pair_arith utf8_def)
  have u2: "utf8 0x20AC = [0xE2, 0x82, 0xAC]"
    by (simp add: utf8_def)
  have a: "parse_string_loop S4_text 13 1 [] =
      parse_string_loop S4_text 13 13 ([] @ utf8 (surrogate_pair 0xD83D 0xDC31))"
    and b: "parse_string zero_item S4_text hooks_ok =
      Parsed ([], zero_item\<lparr>string := Some [0xF0, 0x9F, 0x90, 0xB1], type := cJSON_String\<rparr>)"
    using unicode_escape [where ptr = "1" and end_ptr = "13" and str = "S4_text" and uc = "0xD83D" and lo = "0xDC31" and out = "[]" and cp = "0" and hooks = "hooks_ok" and blk = "replicate 11 0" and item = "zero_item"]
      s4 m by simp_all
  have c: "parse_string_loop esc_euro 7 1 [] = parse_string_loop esc_euro 7 7 ([] @ utf8 0x20AC)"
    using unicode_escape [where ptr = "1" and end_ptr = "7" and str = "esc_euro" and uc = "0x20AC" and lo = "0" and out = "[]" and cp = "0" and hooks = "hooks_ok" and blk = "[]" and item = "zero_item"] euro by simp
  have d: "parse_string_loop esc_nohex 7 1 [] = Failed (Some esc_nohex)"
    using unicode_escape [where ptr = "1" and end_ptr = "7" and str = "esc_nohex" and uc = "0" and lo = "0" and out = "[]" and cp = "0" and hooks = "hooks_ok" and blk = "[]" and item = "zero_item"] nohex by simp
  have e: "parse_string_loop esc_zero 7 1 [] = Failed (Some esc_zero)"
    using unicode_escape [where ptr = "1" and end_ptr = "7" and str = "esc_zero" and uc = "0" and lo = "0" and out = "[]" and cp = "0" and hooks = "hooks_ok" and blk = "[]" and item = "zero_item"] zero by simp
  have f: "parse_string_loop esc_low 7 1 [] = Failed (Some esc_low)"
    using unicode_escape [where ptr = "1" and end_ptr = "7" and str = "esc_low" and uc = "0xDC31" and lo = "0" and out = "[]" and cp = "0" and hooks = "hooks_ok" and blk = "[]" and item = "zero_item"] low by simp
  have g: "parse_string_loop esc_high 13 1 [] = Failed (Some esc_high)"
    using unicode_escape [where ptr = "1" and end_ptr = "13" and str = "esc_high" and uc = "0xD83D" and lo = "0" and out = "[]" and cp = "0" and hooks = "hooks_ok" and blk = "[]" and item = "zero_item"] high by simp
  from a b c d e f g u1 u2 show ?thesis by blast
qed

section \<open>Printing strings\<close>

text \<open>
  What a print function returns: a pointer to the text it has written (NULL: \<open>None\<close>),
  and the print buffer as it leaves it.  \<open>Overrun\<close> stands for a run that stores bytes
  outside the block it obtained.
\<close>

datatype 'p printed = Overrun | Returned "byte list option" 'p

text \<open>
  The allocation idiom of the printers,
  \<^verbatim>\<open>if (p) out = ensure(p, n, hooks); else out = malloc_fn(n); if (!out) return NULL;\<close>
  followed by storing a text and its terminator at \<^verbatim>\<open>out\<close>.  With a print buffer the
  text lands in the buffer at the offset; without one it is a block of its own.
\<close>

definition store_at :: "byte list \<Rightarrow> nat \<Rightarrow> byte list \<Rightarrow> byte list option" where
  "store_at blk off bs =
     (if off + length bs \<le> length blk
      then Some (take off blk @ bs @ drop (off + length bs) blk)
      else None)"

definition write_out ::
  "'w::len printbuffer option \<Rightarrow> 'w word \<Rightarrow> byte list \<Rightarrow> cJSON_Hooks \<Rightarrow>
   'w printbuffer option printed"
where
  "write_out p n text hooks =
     (case p of
        None \<Rightarrow>
          (case malloc_fn hooks (unat n) of
             None \<Rightarrow> Returned None None
           | Some blk \<Rightarrow>
               (case store_at blk 0 (text @ [0]) of
                  None \<Rightarrow> Overrun
                | Some blk' \<Rightarrow> Returned (Some text) None))
      | Some pb \<Rightarrow>
          (case ensure p n hooks of
             (None, p') \<Rightarrow> Returned None p'
           | (Some off, None) \<Rightarrow> Overrun
           | (Some off, Some pb') \<Rightarrow>
               (case buffer pb' of
                  None \<Rightarrow> Overrun
                | Some buf \<Rightarrow>
                    (case store_at buf (unat off) (text @ [0]) of
                       None \<Rightarrow> Overrun
                     | Some buf' \<Rightarrow> Returned (Some text) (Some (pb'\<lparr>buffer := Some buf'\<rparr>))))))"

text \<open>The test that sets \<^verbatim>\<open>flag\<close>: the byte has to be escaped.\<close>

definition needs_escape :: "byte \<Rightarrow> bool" where
  "needs_escape c = ((c > 0 \<and> c < 32) \<or> c = 0x22 \<or> c = 0x5C)"

text \<open>\<^verbatim>\<open>strchr("\"\\\b\f\n\r\t", token)\<close> for a token that is not 0.\<close>

definition short_escape :: "byte \<Rightarrow> bool" where
  "short_escape token = (token \<in> set [0x22, 0x5C, 0x08, 0x0C, 0x0A, 0x0D, 0x09])"

text \<open>The loop that counts the bytes of the escaped text into \<^verbatim>\<open>len\<close>.\<close>

fun escaped_len :: "byte list \<Rightarrow> nat \<Rightarrow> nat" where
  "escaped_len [] len = len"
| "escaped_len (token # ptr) len =
     escaped_len ptr
       (if short_escape token then len + 1 + 1 else if token < 32 then len + 1 + 5 else len + 1)"

text \<open>
  \<^verbatim>\<open>sprintf((char*)ptr2, "u%04x", token)\<close> for a byte: \<^verbatim>\<open>u\<close> and the value in four
  lower-case hex digits.
\<close>

definition hex_char :: "nat \<Rightarrow> byte" where
  "hex_char n = (if n < 10 then 0x30 + of_nat n else 0x61 + of_nat (n - 10))"

definition sprintf_u04x :: "byte \<Rightarrow> byte list" where
  "sprintf_u04x token =
     [0x75, hex_char 0, hex_char 0, hex_char (unat token div 16), hex_char (unat token mod 16)]"

text \<open>The copying loop; \<open>out\<close> holds the bytes stored through \<^verbatim>\<open>ptr2\<close>.\<close>

fun copy_escaped :: "byte list \<Rightarrow> byte list \<Rightarrow> byte list" where
  "copy_escaped [] out = out"
| "copy_escaped (c # ptr) out =
     (if c > 31 \<and> c \<noteq> 0x22 \<and> c \<noteq> 0x5C then copy_escaped ptr (out @ [c])
      else
        copy_escaped ptr
          (out @ [0x5C] @
             (if c = 0x5C then [0x5C]
              else if c = 0x22 then [0x22]
              else if c = 0x08 then [0x62]
              else if c = 0x0C then [0x66]
              else if c = 0x0A then [0x6E]
              else if c = 0x0D then [0x72]
              else if c = 0x09 then [0x74]
              else sprintf_u04x c)))"

definition print_string_ptr ::
  "byte list option \<Rightarrow> 'w::len printbuffer option \<Rightarrow> cJSON_Hooks \<Rightarrow>
   'w printbuffer option printed"
where
  "print_string_ptr str p hooks =
     (case str of
        None \<Rightarrow> write_out p 3 [0x22, 0x22] hooks
      | Some s \<Rightarrow>
          if \<not> list_ex needs_escape s
          then write_out p (of_nat (length s) + 3) ([0x22] @ s @ [0x22]) hooks
          else write_out p (of_nat (escaped_len s 0) + 3) (copy_escaped s [0x22] @ [0x22]) hooks)"

text \<open>\<^verbatim>\<open>print_string\<close>, which \<^verbatim>\<open>print_value\<close> calls for a node of kind String.\<close>

definition print_string ::
  "cJSON \<Rightarrow> 'w::len printbuffer option \<Rightarrow> cJSON_Hooks \<Rightarrow> 'w printbuffer option printed"
where
  "print_string item p hooks = print_string_ptr (string item) p hooks"

subsection \<open>The escaped text\<close>

text \<open>
  The escape sequence for a control byte: one of the two-byte shortcuts, or
  \<^verbatim>\<open>\u00XX\<close> with two lower-case hex digits for the byte.
\<close>

definition control_escape :: "byte \<Rightarrow> byte list" where
  "control_escape b =
     (if b = 0x08 then [0x5C, of_char CHR ''b'']
      else if b = 0x0C then [0x5C, of_char CHR ''f'']
      else if b = 0x0A then [0x5C, of_char CHR ''n'']
      else if b = 0x0D then [0x5C, of_char CHR ''r'']
      else if b = 0x09 then [0x5C, of_char CHR ''t'']
      else [0x5C, of_char CHR ''u'', of_char CHR ''0'', of_char CHR ''0'',
            bytes ''0123456789abcdef'' ! (unat b div 16), bytes ''0123456789abcdef'' ! (unat b mod 16)])"

text \<open>What a payload byte becomes in the printed text.\<close>

definition escape_byte :: "byte \<Rightarrow> byte list" where
  "escape_byte b =
     (if b = 0x22 \<or> b = 0x5C then [0x5C, b]
      else if 0 < b \<and> b < 0x20 then control_escape b
      else [b])"

definition escaped :: "byte list \<Rightarrow> byte list" where
  "escaped s = concat (map escape_byte s)"

lemma hex_char_digits: "n < 16 \<Longrightarrow> hex_char n = bytes ''0123456789abcdef'' ! n"
proof -
  assume "n < 16"
  then have "n \<in> {0, 1, 2, 3, 4, 5, 6, 7, 8, 9, 10, 11, 12, 13, 14, 15}"
    by (simp only: insert_iff empty_iff) presburger
  then show ?thesis
    by (auto simp: hex_char_def bytes_def)
qed

lemma control_lt32: "(b :: byte) < 0x20 \<Longrightarrow> unat b div 16 < 16 \<and> unat b mod 16 < 16"
  by (simp add: word_less_nat_alt)

lemma not_gt31: "(\<not> 31 < (c :: byte)) = (c < 0x20)"
  by (auto simp: word_less_nat_alt)

lemma copy_escaped_step:
  assumes "c \<noteq> 0"
  shows "copy_escaped (c # ptr) out = copy_escaped ptr (out @ escape_byte c)"
proof (cases "c > 31 \<and> c \<noteq> 0x22 \<and> c \<noteq> 0x5C")
  case True
  then have "\<not> c < 0x20" by (simp add: not_gt31 [symmetric])
  with True show ?thesis by (simp add: escape_byte_def)
next
  case False
  then consider (q) "c = 0x22 \<or> c = 0x5C" | (ctl) "c \<noteq> 0x22" "c \<noteq> 0x5C" "c < 0x20"
    using not_gt31 [of c] by blast
  then show ?thesis
  proof cases
    case q
    then show ?thesis by (auto simp: escape_byte_def)
  next
    case ctl
    have pos: "0 < c" using assms by (simp add: word_greater_zero_iff)
    have n31: "\<not> 31 < c" using ctl(3) by (simp add: not_gt31)
    show ?thesis
      using ctl pos n31 control_lt32 [OF ctl(3)]
      by (simp add: escape_byte_def control_escape_def sprintf_u04x_def hex_char_digits)
        (simp add: bytes_def)
  qed
qed

lemma copy_escaped_escaped:
  "0 \<notin> set s \<Longrightarrow> copy_escaped s out = out @ escaped s"
proof (induction s arbitrary: out)
  case Nil
  then show ?case by (simp add: escaped_def)
next
  case (Cons c s)
  then have "c \<noteq> 0" by auto
  from copy_escaped_step [OF this] Cons show ?case
    by (simp add: escaped_def)
qed

lemma escaped_plain:
  "\<not> list_ex needs_escape s \<Longrightarrow> escaped s = s"
proof (induction s)
  case Nil
  then show ?case by (simp add: escaped_def)
next
  case (Cons c s)
  then have "\<not> needs_escape c" and "escaped s = s" by simp_all
  then show ?case
    by (auto simp: escaped_def escape_byte_def needs_escape_def)
qed

lemma print_string_ptr_text:
  assumes "print_string_ptr (Some s) p hooks = Returned (Some text) p'" and "0 \<notin> set s"
  shows "text = [0x22] @ escaped s @ [0x22]"
proof -
  have w: "write_out p n t hooks = Returned (Some text) p' \<Longrightarrow> text = t" for n t
    by (auto simp: write_out_def split: option.splits prod.splits)
  show ?thesis
  proof (cases "list_ex needs_escape s")
    case True
    then show ?thesis
      using assms w by (simp add: print_string_ptr_def copy_escaped_escaped)
  next
    case False
    then show ?thesis
      using assms w escaped_plain [OF False] by (simp add: print_string_ptr_def)
  qed
qed

subsection \<open>Parsing the printed text back\<close>

lemma byte_at_append_ge:
  "length pre \<le> i \<Longrightarrow> byte_at (pre @ xs) i = byte_at xs (i - length pre)"
  by (auto simp: byte_at_def nth_append)

lemma byte_at_Cons: "byte_at (x # xs) k = (if k = 0 then x else byte_at xs (k - 1))"
  by (cases k) (simp_all add: byte_at_def)

lemma hex_digit_char:
  assumes "n < 16"
  shows "bytes ''0123456789abcdef'' ! n \<notin> {0x22, 0x5C, 0}"
    and "hex_value (bytes ''0123456789abcdef'' ! n) = Some n"
proof -
  from assms have "n \<in> {0, 1, 2, 3, 4, 5, 6, 7, 8, 9, 10, 11, 12, 13, 14, 15}"
    by (simp only: insert_iff empty_iff) presburger
  then show "bytes ''0123456789abcdef'' ! n \<notin> {0x22, 0x5C, 0}"
    and "hex_value (bytes ''0123456789abcdef'' ! n) = Some n"
    by (auto simp: bytes_def hex_value_unat)
qed

text \<open>The forms an escaped byte takes.\<close>

lemma escape_byte_cases:
  assumes "b \<noteq> 0"
  obtains (plain) "escape_byte b = [b]" "b \<noteq> 0x22" "b \<noteq> 0x5C" "\<not> b < 0x20"
  | (quoted) "escape_byte b = [0x5C, b]" "b = 0x22 \<or> b = 0x5C"
  | (short) l where "escape_byte b = [0x5C, l]"
      "(l, b) \<in> {(0x62, 0x08), (0x66, 0x0C), (0x6E, 0x0A), (0x72, 0x0D), (0x74, 0x09)}"
  | (hex) "escape_byte b =
        [0x5C, 0x75, 0x30, 0x30, bytes ''0123456789abcdef'' ! (unat b div 16),
         bytes ''0123456789abcdef'' ! (unat b mod 16)]"
      "b < 0x20" "b \<noteq> 0x22" "b \<noteq> 0x5C"
proof -
  have pos: "0 < b" using assms by (simp add: word_greater_zero_iff)
  show ?thesis
  proof (cases "b = 0x22 \<or> b = 0x5C")
    case True
    then show ?thesis using quoted by (auto simp: escape_byte_def)
  next
    case nq: False
    show ?thesis
    proof (cases "b < 0x20")
      case False
      with nq show ?thesis using plain by (simp add: escape_byte_def)
    next
      case True
      show ?thesis
      proof (cases "b \<in> {0x08, 0x0C, 0x0A, 0x0D, 0x09}")
        case True
        then show ?thesis
          using short [of "of_char CHR ''b''"] short [of "of_char CHR ''f''"]
            short [of "of_char CHR ''n''"] short [of "of_char CHR ''r''"]
            short [of "of_char CHR ''t''"]
          by (auto simp: escape_byte_def control_escape_def)
      next
        case False
        with True nq pos show ?thesis
          using hex by (simp add: escape_byte_def control_escape_def)
      qed
    qed
  qed
qed

lemma find_end_byte:
  assumes "b \<noteq> 0"
  shows "\<exists>len'. find_end (pre @ escape_byte b @ rest) (length pre) len =
     find_end (pre @ escape_byte b @ rest) (length pre + length (escape_byte b)) len'"
  using assms
proof (cases b rule: escape_byte_cases)
  case plain
  then show ?thesis
    using assms
    by (subst find_end.simps) (auto simp: byte_at_append_ge byte_at_Cons)
next
  case quoted
  then show ?thesis
    using assms
    by (subst find_end.simps) (auto simp: byte_at_append_ge byte_at_Cons)
next
  case (short l)
  then show ?thesis
    by (subst find_end.simps) (auto simp: byte_at_append_ge byte_at_Cons)
next
  case hex
  note d = hex_digit_char(1) [of "unat b div 16"] hex_digit_char(1) [of "unat b mod 16"]
    control_lt32 [OF hex(2)]
  let ?t = "pre @ escape_byte b @ rest"
  have 1: "find_end ?t (length pre) len = find_end ?t (length pre + 2) (len + 1)"
    using hex by (subst find_end.simps) (simp add: byte_at_append_ge byte_at_Cons)
  have 2: "find_end ?t (length pre + 2) (len + 1) = find_end ?t (length pre + 2 + 1) (len + 1 + 1)"
    using hex by (subst find_end.simps) (simp add: byte_at_append_ge byte_at_Cons)
  have 3: "find_end ?t (length pre + 2 + 1) (len + 1 + 1) =
      find_end ?t (length pre + 2 + 1 + 1) (len + 1 + 1 + 1)"
    using hex by (subst find_end.simps) (simp add: byte_at_append_ge byte_at_Cons)
  have 4: "find_end ?t (length pre + 2 + 1 + 1) (len + 1 + 1 + 1) =
      find_end ?t (length pre + 2 + 1 + 1 + 1) (len + 1 + 1 + 1 + 1)"
    using hex d by (subst find_end.simps) (simp add: byte_at_append_ge byte_at_Cons)
  have 5: "find_end ?t (length pre + 2 + 1 + 1 + 1) (len + 1 + 1 + 1 + 1) =
      find_end ?t (length pre + 2 + 1 + 1 + 1 + 1) (len + 1 + 1 + 1 + 1 + 1)"
    using hex d by (subst find_end.simps) (simp add: byte_at_append_ge byte_at_Cons)
  have "length pre + 2 + 1 + 1 + 1 + 1 = length pre + length (escape_byte b)" using hex by simp
  with 1 2 3 4 5 show ?thesis by metis
qed

lemma find_end_escaped:
  assumes "0 \<notin> set s"
  shows "\<exists>len'. find_end (pre @ escaped s @ suf) (length pre) len =
     find_end (pre @ escaped s @ suf) (length pre + length (escaped s)) len'"
  using assms
proof (induction s arbitrary: pre len)
  case Nil
  then show ?case by (auto simp: escaped_def)
next
  case (Cons b s)
  then have b: "b \<noteq> 0" and s: "0 \<notin> set s" by auto
  have e: "escaped (b # s) = escape_byte b @ escaped s" by (simp add: escaped_def)
  obtain l1 where 1: "find_end (pre @ escape_byte b @ escaped s @ suf) (length pre) len =
      find_end (pre @ escape_byte b @ escaped s @ suf) (length pre + length (escape_byte b)) l1"
    using find_end_byte [OF b, of pre "escaped s @ suf" len] by auto
  obtain l2 where 2: "find_end ((pre @ escape_byte b) @ escaped s @ suf) (length (pre @ escape_byte b)) l1 =
      find_end ((pre @ escape_byte b) @ escaped s @ suf)
        (length (pre @ escape_byte b) + length (escaped s)) l2"
    using Cons.IH [OF s, of "pre @ escape_byte b" l1] by auto
  from 1 2 show ?case by (auto simp: e add.assoc)
qed

lemma utf8_ascii: "(b :: byte) < 0x20 \<Longrightarrow> utf8 (unat b) = [b]"
  by (simp add: utf8_def word_less_nat_alt)

lemma hex4_at_control:
  fixes b :: byte
  assumes "b < 0x20"
  shows "hex4_at (pre @ [0x5C, 0x75, 0x30, 0x30, bytes ''0123456789abcdef'' ! (unat b div 16),
           bytes ''0123456789abcdef'' ! (unat b mod 16)] @ rest) (length pre + 1 + 1) = Some (unat b)"
proof -
  note d = control_lt32 [OF assms]
  have z: "hex_value 0x30 = Some 0" by (simp add: hex_value_unat)
  show ?thesis
    unfolding hex4_at_def hex4_value_def
    by (simp add: byte_at_append_ge byte_at_Cons z hex_digit_char(2) d)
qed

lemma loop_byte:
  assumes "b \<noteq> 0" and "length pre + length (escape_byte b) \<le> e"
  shows "parse_string_loop (pre @ escape_byte b @ rest) e (length pre) out =
     parse_string_loop (pre @ escape_byte b @ rest) e (length pre + length (escape_byte b)) (out @ [b])"
  using assms(1)
proof (cases b rule: escape_byte_cases)
  case plain
  then show ?thesis
    using assms
    by (subst parse_string_loop.simps) (simp add: byte_at_append_ge byte_at_Cons)
next
  case quoted
  then show ?thesis
    using assms
    by (subst parse_string_loop.simps)
      (auto simp: byte_at_append_ge byte_at_Cons unescape_def)
next
  case (short l)
  then show ?thesis
    using assms
    by (subst parse_string_loop.simps)
      (auto simp: byte_at_append_ge byte_at_Cons unescape_def)
next
  case hex
  let ?t = "pre @ escape_byte b @ rest"
  have len: "length (escape_byte b) = 6" using hex by simp
  have p: "length pre < e" "\<not> e \<le> length pre + 1 + 4" using assms(2) len by simp_all
  have b0: "byte_at ?t (length pre) = 0x5C" "byte_at ?t (length pre + 1) = 0x75"
    using hex by (simp_all add: byte_at_append_ge byte_at_Cons)
  have h: "hex4_at ?t (length pre + 1 + 1) = Some (unat b)"
    using hex4_at_control [OF hex(2), of pre rest] hex(1) by simp
  have nz: "unat b \<noteq> 0" using assms(1) by (simp add: unat_eq_0)
  have small: "unat b < 0x20" using hex(2) by (simp add: word_less_nat_alt)
  have "parse_unicode ?t e (length pre + 1) = Parsed (length pre + 1 + 4, [b])"
    unfolding parse_unicode_raw h using p nz small utf8_ascii [OF hex(2)] by simp
  then have "parse_string_loop ?t e (length pre) out =
      parse_string_loop ?t e (length pre + 1 + 4 + 1) (out @ [b])"
    unfolding loop_on_unicode_escape [OF p(1) b0] by simp
  moreover have "length pre + 1 + 4 + 1 = length pre + length (escape_byte b)"
    using len by simp
  ultimately show ?thesis by metis
qed

lemma loop_escaped:
  assumes "0 \<notin> set s" and "length pre + length (escaped s) \<le> e"
  shows "parse_string_loop (pre @ escaped s @ suf) e (length pre) out =
     parse_string_loop (pre @ escaped s @ suf) e (length pre + length (escaped s)) (out @ s)"
  using assms
proof (induction s arbitrary: pre out)
  case Nil
  then show ?case by (simp add: escaped_def)
next
  case (Cons b s)
  then have b: "b \<noteq> 0" and s: "0 \<notin> set s" by auto
  have e: "escaped (b # s) = escape_byte b @ escaped s" by (simp add: escaped_def)
  have le: "length pre + length (escape_byte b) \<le> e"
    "length (pre @ escape_byte b) + length (escaped s) \<le> e"
    using Cons.prems(2) by (simp_all add: e)
  have 1: "parse_string_loop (pre @ escape_byte b @ escaped s @ suf) e (length pre) out =
      parse_string_loop (pre @ escape_byte b @ escaped s @ suf) e
        (length pre + length (escape_byte b)) (out @ [b])"
    by (rule loop_byte [OF b le(1)])
  have 2: "parse_string_loop ((pre @ escape_byte b) @ escaped s @ suf) e
        (length (pre @ escape_byte b)) (out @ [b]) =
      parse_string_loop ((pre @ escape_byte b) @ escaped s @ suf) e
        (length (pre @ escape_byte b) + length (escaped s)) ((out @ [b]) @ s)"
    by (rule Cons.IH [OF s le(2)])
  from 1 2 show ?case by (simp add: e add.assoc)
qed

lemma parse_string_escaped:
  assumes "0 \<notin> set s" and "\<forall>n. malloc_fn hooks n \<noteq> None"
  shows "parse_string item ([0x22] @ escaped s @ [0x22]) hooks =
     Parsed ([], item\<lparr>string := Some s, type := cJSON_String\<rparr>)"
proof -
  let ?t = "[0x22] @ escaped s @ [0x22]"
  let ?e = "length [0x22 :: byte] + length (escaped s)"
  have q: "byte_at ?t ?e = 0x22"
    by (simp add: byte_at_append_ge byte_at_Cons)
  obtain n where "find_end ?t (length [0x22 :: byte]) 0 = find_end ?t ?e n"
    using find_end_escaped [OF assms(1), of "[0x22]" "[0x22]" 0] by auto
  also have "\<dots> = Some (?e, n)"
    using q by (subst find_end.simps) simp
  finally have f: "find_end ?t 1 0 = Some (?e, n)" by simp
  obtain blk where m: "malloc_fn hooks (n + 1) = Some blk"
    using assms(2) by (metis not_None_eq)
  have "parse_string_loop ?t ?e (length [0x22 :: byte]) [] = parse_string_loop ?t ?e ?e ([] @ s)"
    by (rule loop_escaped [OF assms(1)]) simp
  also have "\<dots> = Parsed (?e, s)"
    by (subst parse_string_loop.simps) simp
  finally have l: "parse_string_loop ?t ?e 1 [] = Parsed (?e, s)" by simp
  have d: "drop (?e + 1) ?t = []" by simp
  have h: "deref ?t = 0x22" by simp
  show ?thesis
    unfolding parse_string_def using h f m l q d by (simp del: One_nat_def)
qed

lemma escaped_len_escaped:
  "0 \<notin> set s \<Longrightarrow> escaped_len s len = len + length (escaped s)"
proof (induction s arbitrary: len)
  case Nil
  then show ?case by (simp add: escaped_def)
next
  case (Cons c s)
  then have c: "c \<noteq> 0" and s: "0 \<notin> set s" by auto
  have e: "escaped (c # s) = escape_byte c @ escaped s" by (simp add: escaped_def)
  have "(if short_escape c then len + 1 + 1 else if c < 32 then len + 1 + 5 else len + 1) =
      len + length (escape_byte c)"
    using c
  proof (cases c rule: escape_byte_cases)
    case plain
    then show ?thesis by (auto simp: short_escape_def)
  next
    case quoted
    then show ?thesis by (auto simp: short_escape_def)
  next
    case (short l)
    then show ?thesis by (auto simp: short_escape_def)
  next
    case hex
    have "c \<notin> {0x08, 0x0C, 0x0A, 0x0D, 0x09}"
    proof
      assume "c \<in> {0x08, 0x0C, 0x0A, 0x0D, 0x09}"
      then have "length (escape_byte c) = 2"
        by (auto simp: escape_byte_def control_escape_def)
      with hex(1) show False by simp
    qed
    with hex show ?thesis by (auto simp: short_escape_def)
  qed
  then show ?case using Cons.IH [OF s] by (simp add: e)
qed

text \<open>
  Printing without a print buffer returns the text whenever the allocator serves the
  request and the text with its terminator fits the range of \<^verbatim>\<open>size_t\<close>.
\<close>

lemma print_string_standalone:
  fixes p :: "'w::len printbuffer option"
  assumes "string item = Some s" and "0 \<notin> set s" and "honest hooks"
    and "\<forall>n. malloc_fn hooks n \<noteq> None" and "length (escaped s) + 3 < 2 ^ LENGTH('w)"
    and "p = None"
  shows "print_string item p hooks = Returned (Some ([0x22] @ escaped s @ [0x22])) None"
proof -
  have sz: "unat (of_nat (length (escaped s)) + 3 :: 'w word) = length (escaped s) + 3"
  proof -
    have "of_nat (length (escaped s)) + 3 = (of_nat (length (escaped s) + 3) :: 'w word)"
      by simp
    then show ?thesis
      using assms(5) by (simp only: unat_of_nat) simp
  qed
  have w: "write_out p (of_nat (length (escaped s)) + 3) ([0x22] @ escaped s @ [0x22]) hooks =
      Returned (Some ([0x22] @ escaped s @ [0x22])) None"
  proof -
    obtain blk where b: "malloc_fn hooks (length (escaped s) + 3) = Some blk"
      using assms(4) by (metis not_None_eq)
    then have "length blk = length (escaped s) + 3"
      using assms(3) by (simp add: honest_def)
    then show ?thesis
      using b assms(6) by (simp add: write_out_def sz store_at_def)
  qed
  show ?thesis
  proof (cases "list_ex needs_escape s")
    case True
    then show ?thesis
      using w assms(1,2)
      by (simp add: print_string_def print_string_ptr_def copy_escaped_escaped escaped_len_escaped)
  next
    case False
    then show ?thesis
      using w assms(1) escaped_plain [OF False]
      by (simp add: print_string_def print_string_ptr_def)
  qed
qed

lemma escaped_split:
  "i < length s \<Longrightarrow>
   escaped s = escaped (take i s) @ escape_byte (s ! i) @ escaped (drop (Suc i) s)"
proof -
  assume "i < length s"
  then have "s = take i s @ s ! i # drop (Suc i) s"
    by (simp add: id_take_nth_drop)
  then have "escaped s = escaped (take i s @ s ! i # drop (Suc i) s)" by simp
  then show ?thesis by (simp add: escaped_def)
qed

text \<open>
  Claim C2.  Let printing a String node with payload \<open>s\<close> return a text, and let
  \<open>s ! i\<close> be a control byte, \<open>0 < s ! i < 0x20\<close>.  Then the text is the payload between
  quotes with every byte escaped as \<open>escape_byte\<close> says; where \<open>s ! i\<close> stood, it shows
  the escape sequence \<open>control_escape (s ! i)\<close>: a shortcut \<^verbatim>\<open>\b \f \n \r \t\<close> or
  \<^verbatim>\<open>\u00XX\<close> in lower-case hex.  Parsing the text gives a String node whose payload
  is \<open>s\<close> again, so it holds the byte \<open>s ! i\<close> at position \<open>i\<close>.
\<close>

theorem control_byte_round_trip:
  fixes p :: "'w::len printbuffer option"
  assumes "print_string item p hooks = Returned (Some text) p'"
    and "string item = Some s" and "0 \<notin> set s"
    and "i < length s" and "0 < s ! i" and "s ! i < 0x20"
    and "\<forall>n. malloc_fn hooks' n \<noteq> None"
  shows "text = [0x22] @ escaped (take i s) @ control_escape (s ! i) @ escaped (drop (Suc i) s) @ [0x22] \<and>
     (control_escape (s ! i) \<in> {[0x5C, 0x62], [0x5C, 0x66], [0x5C, 0x6E], [0x5C, 0x72], [0x5C, 0x74]} \<or>
      (\<exists>h l. h \<in> set (bytes ''0123456789abcdef'') \<and> l \<in> set (bytes ''0123456789abcdef'') \<and>
         control_escape (s ! i) = [0x5C, 0x75, 0x30, 0x30, h, l])) \<and>
     (\<exists>item''. parse_string item' text hooks' = Parsed ([], item'') \<and>
        type item'' = cJSON_String \<and> string item'' = Some s \<and>
        (\<exists>s'. string item'' = Some s' \<and> i < length s' \<and> s' ! i = s ! i))"
proof -
  have t: "text = [0x22] @ escaped s @ [0x22]"
    using assms(1,2,3) print_string_ptr_text [of s p hooks "text" p'] by (simp add: print_string_def)
  have e: "escape_byte (s ! i) = control_escape (s ! i)"
    using assms(5,6) by (auto simp: escape_byte_def)
  have 1: "text = [0x22] @ escaped (take i s) @ control_escape (s ! i) @ escaped (drop (Suc i) s) @ [0x22]"
    using t escaped_split [OF assms(4)] e by simp
  have d: "unat (s ! i) div 16 < 16" "unat (s ! i) mod 16 < 16"
    using control_lt32 [OF assms(6)] by simp_all
  have hx: "n < 16 \<Longrightarrow> bytes ''0123456789abcdef'' ! n \<in> set (bytes ''0123456789abcdef'')" for n
    by (rule nth_mem) (simp add: bytes_def)
  have 2: "control_escape (s ! i) \<in> {[0x5C, 0x62], [0x5C, 0x66], [0x5C, 0x6E], [0x5C, 0x72], [0x5C, 0x74]} \<or>
      (\<exists>h l. h \<in> set (bytes ''0123456789abcdef'') \<and> l \<in> set (bytes ''0123456789abcdef'') \<and>
         control_escape (s ! i) = [0x5C, 0x75, 0x30, 0x30, h, l])"
    using hx [OF d(1)] hx [OF d(2)] by (auto simp: control_escape_def simp del: set_simps)
  have 3: "parse_string item' text hooks' = Parsed ([], item'\<lparr>string := Some s, type := cJSON_String\<rparr>)"
    unfolding t by (rule parse_string_escaped [OF assms(3,7)])
  from 1 2 3 assms(4) show ?thesis by auto
qed

text \<open>A String node with the payload \<^verbatim>\<open>a\<close>, byte 1, line feed.\<close>

definition ctl_item :: cJSON where
  "ctl_item = zero_item\<lparr>type := cJSON_String, string := Some [0x61, 0x01, 0x0A]\<rparr>"

definition ctl_text :: "byte list" where
  "ctl_text = [0x22, 0x61, 0x5C, 0x75, 0x30, 0x30, 0x30, 0x31, 0x5C, 0x6E, 0x22]"

lemma honest_hooks_ok: "honest hooks_ok"
  by (simp add: honest_def hooks_ok_def)

lemma hooks_ok_serves: "\<forall>n. malloc_fn hooks_ok n \<noteq> None"
  by (simp add: hooks_ok_def)

lemma ctl_escaped: "escaped [0x61, 0x01, 0x0A] = [0x61, 0x5C, 0x75, 0x30, 0x30, 0x30, 0x31, 0x5C, 0x6E]"
  by (simp add: escaped_def escape_byte_def control_escape_def bytes_def)

lemma ctl_print:
  "print_string ctl_item (None :: 64 printbuffer option) hooks_ok = Returned (Some ctl_text) None"
proof -
  have "print_string ctl_item (None :: 64 printbuffer option) hooks_ok =
      Returned (Some ([0x22] @ escaped [0x61, 0x01, 0x0A] @ [0x22])) None"
    by (rule print_string_standalone [OF _ _ honest_hooks_ok hooks_ok_serves])
      (simp_all add: ctl_item_def ctl_escaped)
  then show ?thesis by (simp add: ctl_escaped ctl_text_def)
qed

theorem control_byte_round_trip_witness:
  "print_string ctl_item (None :: 64 printbuffer option) hooks_ok = Returned (Some ctl_text) None \<and>
   ctl_text = [0x22, 0x61] @ [0x5C, 0x75, 0x30, 0x30, 0x30, 0x31] @ [0x5C, 0x6E, 0x22] \<and>
   (\<exists>item''. parse_string zero_item ctl_text hooks_ok = Parsed ([], item'') \<and>
      type item'' = cJSON_String \<and> string item'' = Some [0x61, 0x01, 0x0A])"
proof -
  have s: "string ctl_item = Some [0x61, 0x01, 0x0A]" by (simp add: ctl_item_def)
  have c: "(0 :: byte) \<notin> set [0x61, 0x01, 0x0A]" "1 < length [0x61, 0x01, 0x0A :: byte]"
    "0 < [0x61, 0x01, 0x0A :: byte] ! 1" "[0x61, 0x01, 0x0A :: byte] ! 1 < 0x20"
    by simp_all
  from control_byte_round_trip [OF ctl_print s c hooks_ok_serves, of zero_item] ctl_print
  show ?thesis by (auto simp: ctl_text_def)
qed

section \<open>The tree in memory\<close>

text \<open>
  The nodes live in a heap: the node at address \<open>a\<close> is \<open>h ! a\<close>, and an address is
  valid when it is below \<open>length h\<close>.  \<^verbatim>\<open>cJSON_New_Item\<close> takes the next free address.
  A function that follows a pointer to no node has no result (\<open>None\<close>), and so has a
  loop that never ends.
\<close>

type_synonym heap = "cJSON list"

definition node :: "heap \<Rightarrow> addr \<Rightarrow> cJSON option" where
  "node h a = (if a < length h then Some (h ! a) else None)"

subsection \<open>Detaching\<close>

text \<open>
  \<^verbatim>\<open>while (c && (which > 0)) { previous = c; c = c->next; which--; }\<close>: the values of
  \<^verbatim>\<open>c\<close> and \<^verbatim>\<open>previous\<close> after the loop.
\<close>

fun detach_walk ::
  "heap \<Rightarrow> addr option \<Rightarrow> addr option \<Rightarrow> nat \<Rightarrow> (addr option \<times> addr option) option"
where
  "detach_walk h c previous 0 = Some (c, previous)"
| "detach_walk h None previous (Suc which) = Some (None, previous)"
| "detach_walk h (Some a) previous (Suc which) =
     (case node h a of
        None \<Rightarrow> None
      | Some n \<Rightarrow> detach_walk h (next' n) (Some a) which)"

text \<open>
  \<^verbatim>\<open>cJSON_DetachItemFromArray(array, which)\<close>: the node returned (or NULL) and the heap
  afterwards.  Every field is read from the heap as it is at that statement.
\<close>

definition cJSON_DetachItemFromArray :: "heap \<Rightarrow> addr \<Rightarrow> nat \<Rightarrow> (addr option \<times> heap) option" where
  "cJSON_DetachItemFromArray h array which =
     (case node h array of
        None \<Rightarrow> None
      | Some arr \<Rightarrow>
          (case detach_walk h (child arr) None which of
             None \<Rightarrow> None
           | Some (None, previous) \<Rightarrow> Some (None, h)
           | Some (Some c, previous) \<Rightarrow>
               (case node h c of
                  None \<Rightarrow> None
                | Some cn \<Rightarrow>
                    (let h1 =
                       (if Some c = child arr
                        then Some (h[array := arr\<lparr>child := next' cn\<rparr>])
                        else
                          (case previous of
                             None \<Rightarrow> None
                           | Some pr \<Rightarrow>
                               (case node h pr of
                                  None \<Rightarrow> None
                                | Some prn \<Rightarrow> Some (h[pr := prn\<lparr>next' := next' cn\<rparr>]))))
                     in
                       (case h1 of
                          None \<Rightarrow> None
                        | Some h1 \<Rightarrow> Some (Some c, h1[c := (h1 ! c)\<lparr>next' := None\<rparr>]))))))"

text \<open>
  \<^verbatim>\<open>while (c && strcmp(c->name, name)) { i++; c = c->next; }\<close>: the values of \<^verbatim>\<open>c\<close>
  and \<^verbatim>\<open>i\<close> after the loop.  \<^verbatim>\<open>strcmp\<close> on a NULL name has no result.
\<close>

partial_function (option) find_name ::
  "heap \<Rightarrow> addr option \<Rightarrow> byte list \<Rightarrow> nat \<Rightarrow> (addr option \<times> nat) option"
where
  "find_name h c key i =
     (case c of
        None \<Rightarrow> Some (None, i)
      | Some a \<Rightarrow>
          (case node h a of
             None \<Rightarrow> None
           | Some n \<Rightarrow>
               (case name n of
                  None \<Rightarrow> None
                | Some k \<Rightarrow>
                    if k \<noteq> key then find_name h (next' n) key (i + 1)
                    else Some (Some a, i))))"

definition cJSON_DetachItemFromObject ::
  "heap \<Rightarrow> addr \<Rightarrow> byte list \<Rightarrow> (addr option \<times> heap) option"
where
  "cJSON_DetachItemFromObject h object key =
     (case node h object of
        None \<Rightarrow> None
      | Some obj \<Rightarrow>
          (case find_name h (child obj) key 0 of
             None \<Rightarrow> None
           | Some (None, i) \<Rightarrow> Some (None, h)
           | Some (Some c, i) \<Rightarrow> cJSON_DetachItemFromArray h object i))"

subsection \<open>Child lists\<close>

text \<open>
  \<open>seg h p as q\<close>: following \<^verbatim>\<open>next\<close> from the pointer \<open>p\<close> visits the nodes \<open>as\<close> in
  this order and arrives at \<open>q\<close>.  A child list is a segment that arrives at NULL.
\<close>

fun seg :: "heap \<Rightarrow> addr option \<Rightarrow> addr list \<Rightarrow> addr option \<Rightarrow> bool" where
  "seg h p [] q = (p = q)"
| "seg h p (a # as) q = (p = Some a \<and> a < length h \<and> seg h (next' (h ! a)) as q)"

definition chain :: "heap \<Rightarrow> addr option \<Rightarrow> addr list \<Rightarrow> bool" where
  "chain h p as = seg h p as None"

text \<open>
  \<open>unlinked h parent as i res\<close>: the call returned the \<open>i\<close>-th node of the child list
  \<open>as\<close> of \<open>parent\<close>; in the heap it left, that node's \<^verbatim>\<open>next\<close> is NULL, the child list of
  \<open>parent\<close> is \<open>as\<close> without its \<open>i\<close>-th node, no field other than a \<^verbatim>\<open>next\<close> or a
  \<^verbatim>\<open>child\<close> link has changed, and only \<open>parent\<close> can have another \<^verbatim>\<open>child\<close>.
\<close>

definition unlinked ::
  "heap \<Rightarrow> addr \<Rightarrow> addr list \<Rightarrow> nat \<Rightarrow> (addr option \<times> heap) option \<Rightarrow> bool"
where
  "unlinked h parent as i res =
     (case res of
        Some (Some c, h') \<Rightarrow>
          c = as ! i \<and>
          next' (h' ! c) = None \<and>
          chain h' (child (h' ! parent)) (take i as @ drop (Suc i) as) \<and>
          length h' = length h \<and>
          (\<forall>a<length h.
             h' ! a = (h ! a)\<lparr>next' := next' (h' ! a), child := child (h' ! a)\<rparr> \<and>
             (a \<noteq> parent \<longrightarrow> child (h' ! a) = child (h ! a)))
      | _ \<Rightarrow> False)"

lemma seg_append:
  "seg h p (xs @ ys) q \<longleftrightarrow> (\<exists>r. seg h p xs r \<and> seg h r ys q)"
  by (induction xs arbitrary: p) auto

lemma seg_frame:
  "seg h p xs q \<Longrightarrow> length h' = length h \<Longrightarrow>
   (\<forall>a\<in>set xs. next' (h' ! a) = next' (h ! a)) \<Longrightarrow> seg h' p xs q"
  by (induction xs arbitrary: p) auto

lemma seg_unique:
  "seg h p xs None \<Longrightarrow> seg h p ys None \<Longrightarrow> xs = ys"
proof (induction xs arbitrary: p ys)
  case Nil
  then show ?case by (cases ys) auto
next
  case (Cons a as)
  then show ?case by (cases ys) auto
qed

lemma seg_distinct:
  "seg h p xs None \<Longrightarrow> distinct xs"
proof (induction xs arbitrary: p)
  case Nil
  show ?case by simp
next
  case (Cons a as)
  have rest: "seg h (next' (h ! a)) as None" and p: "p = Some a" and a: "a < length h"
    using Cons.prems by auto
  have "a \<notin> set as"
  proof
    assume "a \<in> set as"
    then obtain us vs where as: "as = us @ a # vs"
      by (auto dest: split_list)
    from rest obtain r where "seg h r (a # vs) None"
      unfolding as seg_append by blast
    then have "seg h (Some a) (a # vs) None"
      by auto
    moreover have "seg h (Some a) (a # as) None"
      using rest a by simp
    ultimately have "a # vs = a # as"
      by (rule seg_unique)
    then show False
      using as by (auto dest: arg_cong [where f = length])
  qed
  moreover have "distinct as"
    using rest by (rule Cons.IH)
  ultimately show ?case by simp
qed

lemma detach_walk_seg:
  "seg h p xs None \<Longrightarrow> i < length xs \<Longrightarrow>
   detach_walk h p prev i
     = Some (Some (xs ! i), if i = 0 then prev else Some (xs ! (i - 1)))"
proof (induction i arbitrary: p xs prev)
  case 0
  then show ?case by (cases xs) auto
next
  case (Suc i)
  then obtain a as where xs: "xs = a # as"
    by (cases xs) auto
  have p: "p = Some a" and a: "a < length h" and rest: "seg h (next' (h ! a)) as None"
    using Suc.prems(1) unfolding xs by auto
  have i: "i < length as"
    using Suc.prems(2) unfolding xs by simp
  show ?case
    unfolding xs p using Suc.IH [OF rest i, of "Some a"] a
    by (cases i) (simp_all add: node_def)
qed

lemma find_name_seg:
  "seg h p xs None \<Longrightarrow> i < length xs \<Longrightarrow> name (h ! (xs ! i)) = Some key \<Longrightarrow>
   (\<forall>j<i. \<exists>k. name (h ! (xs ! j)) = Some k \<and> k \<noteq> key) \<Longrightarrow>
   find_name h p key n = Some (Some (xs ! i), n + i)"
proof (induction i arbitrary: p xs n)
  case 0
  then obtain a as where xs: "xs = a # as"
    by (cases xs) auto
  show ?case
    using "0.prems" unfolding xs
    by (subst find_name.simps) (simp add: node_def)
next
  case (Suc i)
  then obtain a as where xs: "xs = a # as"
    by (cases xs) auto
  have p: "p = Some a" and a: "a < length h" and rest: "seg h (next' (h ! a)) as None"
    using Suc.prems(1) unfolding xs by auto
  have i: "i < length as"
    using Suc.prems(2) unfolding xs by simp
  have key: "name (h ! (as ! i)) = Some key"
    using Suc.prems(3) unfolding xs by simp
  have before: "\<forall>j<i. \<exists>k. name (h ! (as ! j)) = Some k \<and> k \<noteq> key"
  proof (intro allI impI)
    fix j assume "j < i"
    then have "Suc j < Suc i" by simp
    with Suc.prems(4) have "\<exists>k. name (h ! (xs ! Suc j)) = Some k \<and> k \<noteq> key"
      by blast
    then show "\<exists>k. name (h ! (as ! j)) = Some k \<and> k \<noteq> key"
      unfolding xs by simp
  qed
  from Suc.prems(4) have "\<exists>k. name (h ! (xs ! 0)) = Some k \<and> k \<noteq> key"
    by blast
  then obtain k where k: "name (h ! a) = Some k" "k \<noteq> key"
    unfolding xs by auto
  show ?case
    unfolding xs p
    using Suc.IH [OF rest i key before, of "n + 1"] a k
    by (subst find_name.simps) (simp add: node_def)
qed

lemma detach_first:
  assumes parent: "parent < length h"
    and list: "seg h (child (h ! parent)) (c # ys) None"
    and notin: "parent \<notin> set (c # ys)"
  shows "unlinked h parent (c # ys) 0 (cJSON_DetachItemFromArray h parent 0)"
proof -
  have dist: "distinct (c # ys)"
    using list by (rule seg_distinct)
  have ch: "child (h ! parent) = Some c" and c: "c < length h"
    and rest: "seg h (next' (h ! c)) ys None"
    using list by auto
  have pc: "parent \<noteq> c"
    using notin by auto
  define h1 where "h1 = h[parent := (h ! parent)\<lparr>child := next' (h ! c)\<rparr>]"
  define h2 where "h2 = h1[c := (h1 ! c)\<lparr>next' := None\<rparr>]"
  have res: "cJSON_DetachItemFromArray h parent 0 = Some (Some c, h2)"
    using parent c ch
    by (simp add: cJSON_DetachItemFromArray_def node_def h1_def h2_def)
  have len: "length h2 = length h"
    by (simp add: h1_def h2_def)
  have h2c: "h2 ! c = (h ! c)\<lparr>next' := None\<rparr>"
    using c pc by (simp add: h1_def h2_def)
  have h2p: "h2 ! parent = (h ! parent)\<lparr>child := next' (h ! c)\<rparr>"
    using parent pc by (simp add: h1_def h2_def)
  have other: "h2 ! a = h ! a" if "a \<noteq> c" "a \<noteq> parent" for a
    using that by (simp add: h1_def h2_def)
  have "\<forall>a\<in>set ys. next' (h2 ! a) = next' (h ! a)"
  proof
    fix a assume "a \<in> set ys"
    then have "a \<noteq> c" "a \<noteq> parent"
      using dist notin by auto
    then show "next' (h2 ! a) = next' (h ! a)"
      by (simp add: other)
  qed
  with rest len have "seg h2 (next' (h ! c)) ys None"
    by (rule seg_frame)
  then have chain': "chain h2 (child (h2 ! parent)) ys"
    by (simp add: chain_def h2p)
  have frame: "h2 ! a = (h ! a)\<lparr>next' := next' (h2 ! a), child := child (h2 ! a)\<rparr>
      \<and> (a \<noteq> parent \<longrightarrow> child (h2 ! a) = child (h ! a))" for a
    by (cases "a = c"; cases "a = parent") (simp_all add: h2c h2p other)
  show ?thesis
    unfolding res unlinked_def using chain' len frame by (simp add: h2c)
qed

lemma detach_later:
  assumes parent: "parent < length h"
    and list: "seg h (child (h ! parent)) (xs @ pr # c # ys) None"
    and notin: "parent \<notin> set (xs @ pr # c # ys)"
  shows "unlinked h parent (xs @ pr # c # ys) (Suc (length xs))
           (cJSON_DetachItemFromArray h parent (Suc (length xs)))"
proof -
  let ?as = "xs @ pr # c # ys"
  let ?i = "Suc (length xs)"
  have dist: "distinct ?as"
    using list by (rule seg_distinct)
  obtain r where front: "seg h (child (h ! parent)) xs r" and behind: "seg h r (pr # c # ys) None"
    using list unfolding seg_append by blast
  have r: "r = Some pr" and pr: "pr < length h" and prn: "next' (h ! pr) = Some c"
    and c: "c < length h" and rest: "seg h (next' (h ! c)) ys None"
    using behind by auto
  have ne: "parent \<noteq> c" "parent \<noteq> pr" "pr \<noteq> c"
    using notin dist by auto
  have nth: "?as ! ?i = c" "?as ! (?i - 1) = pr"
    by (simp_all add: nth_append)
  have walk: "detach_walk h (child (h ! parent)) None ?i = Some (Some c, Some pr)"
    using detach_walk_seg [OF list, of ?i None] nth by simp
  have first: "child (h ! parent) \<noteq> Some c"
    using list dist by (cases xs) auto
  define h1 where "h1 = h[pr := (h ! pr)\<lparr>next' := next' (h ! c)\<rparr>]"
  define h2 where "h2 = h1[c := (h1 ! c)\<lparr>next' := None\<rparr>]"
  have res: "cJSON_DetachItemFromArray h parent ?i = Some (Some c, h2)"
    using parent c pr first walk
    by (auto simp add: cJSON_DetachItemFromArray_def node_def h1_def h2_def)
  have len: "length h2 = length h"
    by (simp add: h1_def h2_def)
  have h2c: "h2 ! c = (h ! c)\<lparr>next' := None\<rparr>"
    using c ne by (simp add: h1_def h2_def)
  have h2pr: "h2 ! pr = (h ! pr)\<lparr>next' := next' (h ! c)\<rparr>"
    using pr ne by (simp add: h1_def h2_def)
  have other: "h2 ! a = h ! a" if "a \<noteq> c" "a \<noteq> pr" for a
    using that by (simp add: h1_def h2_def)
  have "\<forall>a\<in>set xs. next' (h2 ! a) = next' (h ! a)"
  proof
    fix a assume "a \<in> set xs"
    then have "a \<noteq> c" "a \<noteq> pr"
      using dist by auto
    then show "next' (h2 ! a) = next' (h ! a)"
      by (simp add: other)
  qed
  with front len have s1: "seg h2 (child (h ! parent)) xs (Some pr)"
    unfolding r by (rule seg_frame)
  have "\<forall>a\<in>set ys. next' (h2 ! a) = next' (h ! a)"
  proof
    fix a assume "a \<in> set ys"
    then have "a \<noteq> c" "a \<noteq> pr"
      using dist by auto
    then show "next' (h2 ! a) = next' (h ! a)"
      by (simp add: other)
  qed
  with rest len have s3: "seg h2 (next' (h ! c)) ys None"
    by (rule seg_frame)
  have s2: "seg h2 (Some pr) (pr # ys) None"
    using s3 pr len by (simp add: h2pr)
  have "seg h2 (child (h ! parent)) (xs @ pr # ys) None"
    unfolding seg_append using s1 s2 by blast
  moreover have "child (h2 ! parent) = child (h ! parent)"
    using ne by (simp add: other)
  moreover have "take ?i ?as @ drop (Suc ?i) ?as = xs @ pr # ys"
    by simp
  ultimately have chain': "chain h2 (child (h2 ! parent)) (take ?i ?as @ drop (Suc ?i) ?as)"
    by (simp add: chain_def)
  have frame: "h2 ! a = (h ! a)\<lparr>next' := next' (h2 ! a), child := child (h2 ! a)\<rparr>
      \<and> (a \<noteq> parent \<longrightarrow> child (h2 ! a) = child (h ! a))" for a
    by (cases "a = c"; cases "a = pr") (simp_all add: h2c h2pr other)
  show ?thesis
    unfolding res unlinked_def using chain' len frame nth
    by (simp add: h2c del: take_append drop_append append_assoc)
qed

lemma detach_array:
  assumes parent: "parent < length h"
    and list: "chain h (child (h ! parent)) as"
    and notin: "parent \<notin> set as"
    and i: "i < length as"
  shows "unlinked h parent as i (cJSON_DetachItemFromArray h parent i)"
proof (cases i)
  case 0
  with i obtain c ys where as: "as = c # ys"
    by (cases as) auto
  show ?thesis
    using detach_first [of parent h c ys] parent list notin
    unfolding 0 as chain_def by simp
next
  case (Suc k)
  have k: "k < length as"
    using i Suc by simp
  have "as = take k as @ as ! k # drop (Suc k) as"
    using k by (rule id_take_nth_drop)
  also have "drop (Suc k) as = as ! Suc k # drop (Suc (Suc k)) as"
    using i Suc by (simp add: Cons_nth_drop_Suc)
  finally have as: "as = take k as @ as ! k # as ! Suc k # drop (Suc (Suc k)) as" .
  have len: "length (take k as) = k"
    using k by simp
  show ?thesis
    using detach_later [of parent h "take k as" "as ! k" "as ! Suc k" "drop (Suc (Suc k)) as"]
      parent list notin
    unfolding Suc chain_def len as [symmetric] by simp
qed

lemma detach_object:
  assumes parent: "parent < length h"
    and list: "chain h (child (h ! parent)) as"
    and notin: "parent \<notin> set as"
    and i: "i < length as"
    and key: "name (h ! (as ! i)) = Some key"
    and before: "\<forall>j<i. \<exists>k. name (h ! (as ! j)) = Some k \<and> k \<noteq> key"
  shows "cJSON_DetachItemFromObject h parent key = cJSON_DetachItemFromArray h parent i"
  using find_name_seg [OF list [unfolded chain_def] i key before, of 0] parent
  by (simp add: cJSON_DetachItemFromObject_def node_def)

text \<open>
  C8.  Let \<open>as\<close> be the child list of \<open>parent\<close> (the nodes reached from its \<^verbatim>\<open>child\<close>
  pointer along \<^verbatim>\<open>next\<close>, ending at NULL), \<open>parent\<close> not one of them, and \<open>i\<close> an index
  below its length.  Then \<^verbatim>\<open>cJSON_DetachItemFromArray(parent, i)\<close> returns the \<open>i\<close>-th
  child with its \<^verbatim>\<open>next\<close> set to NULL, and afterwards the child list of \<open>parent\<close> is
  \<open>as\<close> with that one node removed, in the original order; nothing but \<^verbatim>\<open>next\<close> and
  \<^verbatim>\<open>child\<close> links has changed.  When the \<open>i\<close>-th child is the first one whose name is
  \<open>key\<close>, and the children before it have names, \<^verbatim>\<open>cJSON_DetachItemFromObject(parent, key)\<close>
  does the same.
\<close>

theorem detach_unlinks_child:
  assumes "parent < length h"
    and "chain h (child (h ! parent)) as"
    and "parent \<notin> set as"
    and "i < length as"
  shows "unlinked h parent as i (cJSON_DetachItemFromArray h parent i) \<and>
         (name (h ! (as ! i)) = Some key \<and>
          (\<forall>j<i. \<exists>k. name (h ! (as ! j)) = Some k \<and> k \<noteq> key) \<longrightarrow>
          unlinked h parent as i (cJSON_DetachItemFromObject h parent key))"
  using detach_array [OF assms] detach_object [OF assms] by simp

text \<open>
  An object with the three members \<^verbatim>\<open>{"a": 1, "b": 2, "c": 3}\<close>: detaching index 1, or
  the key \<^verbatim>\<open>b\<close>, returns the node at address 2 and links the node at address 1 to the
  node at address 3.
\<close>

definition member :: "string \<Rightarrow> real \<Rightarrow> addr option \<Rightarrow> cJSON" where
  "member k v nxt =
     zero_item\<lparr>type := cJSON_Number, number := Finite v, name := Some (bytes k), next' := nxt\<rparr>"

definition abc_object :: heap where
  "abc_object =
     [zero_item\<lparr>type := cJSON_Object, child := Some 1\<rparr>,
      member ''a'' 1 (Some 2), member ''b'' 2 (Some 3), member ''c'' 3 None]"

definition ac_object :: heap where
  "ac_object =
     [zero_item\<lparr>type := cJSON_Object, child := Some 1\<rparr>,
      member ''a'' 1 (Some 3), member ''b'' 2 None, member ''c'' 3 None]"

theorem detach_unlinks_child_witness:
  "unlinked abc_object 0 [1, 2, 3] 1 (cJSON_DetachItemFromArray abc_object 0 1) \<and>
   unlinked abc_object 0 [1, 2, 3] 1 (cJSON_DetachItemFromObject abc_object 0 (bytes ''b'')) \<and>
   cJSON_DetachItemFromArray abc_object 0 1 = Some (Some 2, ac_object) \<and>
   chain ac_object (child (ac_object ! 0)) [1, 3]"
proof -
  have "cJSON_DetachItemFromArray abc_object 0 1 = Some (Some 2, ac_object)"
    by (simp add: cJSON_DetachItemFromArray_def abc_object_def ac_object_def node_def member_def
        zero_item_def)
  moreover have "chain ac_object (child (ac_object ! 0)) [1, 3]"
    by (simp add: chain_def ac_object_def member_def)
  moreover have "chain abc_object (child (abc_object ! 0)) [1, 2, 3]"
    by (simp add: chain_def abc_object_def member_def)
  moreover have "name (abc_object ! ([1, 2, 3] ! 1)) = Some (bytes ''b'')"
    "\<forall>j<1. \<exists>k. name (abc_object ! ([1, 2, 3] ! j)) = Some k \<and> k \<noteq> bytes ''b''"
    by (simp_all add: abc_object_def member_def bytes_def)
  ultimately show ?thesis
    using detach_unlinks_child [of 0 abc_object "[1, 2, 3]" 1 "bytes ''b''"]
    by (simp add: abc_object_def)
qed

end
